theory Spec2Isabelle
  imports Main
begin

section \<open>Micro Tetris: the program\<close>

text \<open>
  The program is \<^verbatim>\<open>src/tetris.c\<close>. Its state is a handful of globals: the flat array
  \<^verbatim>\<open>board[B_SIZE]\<close>, the pointer \<^verbatim>\<open>shape\<close> into the table \<^verbatim>\<open>shapes\<close>, and the counters
  \<^verbatim>\<open>level\<close>, \<^verbatim>\<open>points\<close>, \<^verbatim>\<open>lines_cleared\<close>. The model passes them explicitly.

  Conventions of the model:
  \<^item> cell values, offsets and anchors are C \<^verbatim>\<open>int\<close>s and are modelled as \<^typ>\<open>int\<close>; loop
    counters that the code keeps non-negative are \<^typ>\<open>nat\<close>;
  \<^item> the board is an \<^typ>\<open>int list\<close>; a well-formed board has length \<^verbatim>\<open>B_SIZE\<close>;
  \<^item> an array access outside \<^verbatim>\<open>[0, B_SIZE)\<close> is undefined behaviour in C. The model makes it
    the value \<open>Inl OutOfBounds\<close>; the source itself contains no bounds test;
  \<^item> a shape pointer \<^verbatim>\<open>&shapes[5 * k]\<close> is modelled by the catalog index \<open>k\<close>, so that
    \<^verbatim>\<open>s[j]\<close> is \<open>shapes ! (5 * k + j)\<close>.
\<close>

subsection \<open>Constants (lines 51-62)\<close>

text \<open>The offset macros carry the suffix \<open>_off\<close> here.\<close>

abbreviation (input) B_COLS :: nat where "B_COLS \<equiv> 12"
abbreviation (input) B_ROWS :: nat where "B_ROWS \<equiv> 23"
abbreviation (input) B_SIZE :: nat where "B_SIZE \<equiv> 276"

abbreviation (input) TL_off :: int where "TL_off \<equiv> -13"
abbreviation (input) TC_off :: int where "TC_off \<equiv> -12"
abbreviation (input) TR_off :: int where "TR_off \<equiv> -11"
abbreviation (input) ML_off :: int where "ML_off \<equiv> -1"
abbreviation (input) MR_off :: int where "MR_off \<equiv> 1"
abbreviation (input) BL_off :: int where "BL_off \<equiv> 11"
abbreviation (input) BC_off :: int where "BC_off \<equiv> 12"
abbreviation (input) BR_off :: int where "BR_off \<equiv> 13"

subsection \<open>The shape catalog (lines 96-116)\<close>

text \<open>
  Nineteen entries of five fields: the index of the rotation successor, three offsets
  relative to the anchor, and the colour.
\<close>

definition shapes :: "int list" where
  "shapes = [
     7, TL_off, TC_off, MR_off, 2,
     8, TR_off, TC_off, ML_off, 3,
     9, ML_off, MR_off, BC_off, 1,
     3, TL_off, TC_off, ML_off, 4,
    12, ML_off, BL_off, MR_off, 5,
    15, ML_off, BR_off, MR_off, 6,
    18, ML_off, MR_off,  2, 7,
     0, TC_off, ML_off, BL_off, 2,
     1, TC_off, MR_off, BR_off, 3,
    10, TC_off, MR_off, BC_off, 1,
    11, TC_off, ML_off, MR_off, 1,
     2, TC_off, ML_off, BC_off, 1,
    13, TC_off, BC_off, BR_off, 5,
    14, TR_off, ML_off, MR_off, 5,
     4, TL_off, TC_off, BC_off, 5,
    16, TR_off, TC_off, BC_off, 6,
    17, TL_off, MR_off, ML_off, 6,
     5, TC_off, BC_off, BL_off, 6,
     6, TC_off, BC_off, 2 * 12, 7]"

text \<open>\<^verbatim>\<open>s[j]\<close> for the shape pointer \<^verbatim>\<open>s = &shapes[5 * k]\<close>.\<close>

definition field :: "nat \<Rightarrow> nat \<Rightarrow> int" where
  "field k j = shapes ! (5 * k + j)"

subsection \<open>Board access\<close>

type_synonym board = "int list"

datatype fault = OutOfBounds | SignedOverflow

text \<open>Reading \<^verbatim>\<open>board[p]\<close>.\<close>

definition cell :: "board \<Rightarrow> int \<Rightarrow> fault + int" where
  "cell b p = (if 0 \<le> p \<and> p < int B_SIZE then Inr (b ! nat p) else Inl OutOfBounds)"

text \<open>Writing \<^verbatim>\<open>board[p] = c\<close>.\<close>

definition store :: "board \<Rightarrow> int \<Rightarrow> int \<Rightarrow> fault + board" where
  "store b p c = (if 0 \<le> p \<and> p < int B_SIZE then Inr (b[nat p := c]) else Inl OutOfBounds)"

subsection \<open>\<^verbatim>\<open>fits_in\<close> (lines 227-233) and \<^verbatim>\<open>place\<close> (lines 236-242)\<close>

text \<open>
  The four reads are joined by \<^verbatim>\<open>||\<close>, which evaluates left to right and stops at the
  first non-zero cell: a later cell is not read once an earlier one is occupied.
\<close>

definition fits_in :: "board \<Rightarrow> nat \<Rightarrow> int \<Rightarrow> fault + bool" where
  "fits_in b s pos =
     (case cell b pos of Inl e \<Rightarrow> Inl e | Inr c0 \<Rightarrow>
        if c0 \<noteq> 0 then Inr False else
     (case cell b (pos + field s 1) of Inl e \<Rightarrow> Inl e | Inr c1 \<Rightarrow>
        if c1 \<noteq> 0 then Inr False else
     (case cell b (pos + field s 2) of Inl e \<Rightarrow> Inl e | Inr c2 \<Rightarrow>
        if c2 \<noteq> 0 then Inr False else
     (case cell b (pos + field s 3) of Inl e \<Rightarrow> Inl e | Inr c3 \<Rightarrow>
        if c3 \<noteq> 0 then Inr False else Inr True))))"

definition place :: "board \<Rightarrow> nat \<Rightarrow> int \<Rightarrow> int \<Rightarrow> fault + board" where
  "place b s pos c =
     (case store b pos c of Inl e \<Rightarrow> Inl e | Inr b0 \<Rightarrow>
     (case store b0 (pos + field s 1) c of Inl e \<Rightarrow> Inl e | Inr b1 \<Rightarrow>
     (case store b1 (pos + field s 2) c of Inl e \<Rightarrow> Inl e | Inr b2 \<Rightarrow>
      store b2 (pos + field s 3) c)))"

subsection \<open>Board initialisation (lines 406-408)\<close>

text \<open>
  The loop runs \<^verbatim>\<open>i\<close> from \<^verbatim>\<open>B_SIZE\<close> down to 1 while the pointer walks up from
  \<^verbatim>\<open>board[0]\<close>, so \<^verbatim>\<open>board[j]\<close> is computed from \<^verbatim>\<open>i = B_SIZE - j\<close>.
\<close>

definition init_board :: board where
  "init_board = map (\<lambda>i. if i < 25 \<or> i mod B_COLS < 2 then 60 else 0) (rev [1..<Suc B_SIZE])"

subsection \<open>Rows: full test, clear and shift (lines 442-460)\<close>

definition row_full :: "board \<Rightarrow> nat \<Rightarrow> bool" where
  "row_full b i = list_all (\<lambda>x. b ! (i * B_COLS + x) \<noteq> 0) [1..<B_COLS - 1]"

definition clear_row :: "board \<Rightarrow> nat \<Rightarrow> board" where
  "clear_row b i = fold (\<lambda>x b. b[i * B_COLS + x := 0]) [1..<B_COLS - 1] b"

text \<open>The inner loop of the shift: row \<open>y\<close> receives row \<open>y - 1\<close>.\<close>

definition shift_row :: "board \<Rightarrow> nat \<Rightarrow> board" where
  "shift_row b y = fold (\<lambda>x b. b[y * B_COLS + x := b ! ((y - 1) * B_COLS + x)]) [1..<B_COLS - 1] b"

text \<open>The outer loop \<^verbatim>\<open>for (y = i; y > 0; --y)\<close>.\<close>

primrec shift_down :: "nat \<Rightarrow> board \<Rightarrow> board" where
  "shift_down 0 b = b"
| "shift_down (Suc y) b = shift_down y (shift_row b (Suc y))"

text \<open>Lines 452-460 on the board: clear row \<open>i\<close>, then shift.\<close>

definition clear_and_shift :: "board \<Rightarrow> nat \<Rightarrow> board" where
  "clear_and_shift b i = shift_down i (clear_row b i)"

subsection \<open>The game state\<close>

text \<open>
  The globals of the program, and \<^verbatim>\<open>main\<close>'s local \<^verbatim>\<open>pos\<close>. The array \<^verbatim>\<open>shadow\<close> is
  written and read by the rendering alone and is left out, and so is the key \<^verbatim>\<open>c\<close>, which
  only selects the handler. \<^verbatim>\<open>peek_shape\<close> is a null pointer until the first draw.
\<close>

record game =
  level :: int
  points :: int
  lines_cleared :: int
  board :: board
  peek_shape :: "nat option"
  pcolor :: int
  shape :: nat
  color :: int
  pos :: int

subsection \<open>\<^verbatim>\<open>update\<close> (lines 164-224)\<close>

text \<open>The loop of lines 203-206.\<close>

function level_loop :: "game \<Rightarrow> game" where
  "level_loop g =
     (if lines_cleared g \<ge> 10
      then level_loop (g\<lparr>lines_cleared := lines_cleared g - 10, level := level g + 1\<rparr>)
      else g)"
  by pat_completeness auto
termination
  by (relation "measure (\<lambda>g. nat (lines_cleared g))") auto

text \<open>
  Of \<^verbatim>\<open>update\<close> the model keeps what changes the game state. Drawing is output, and the
  key returned by \<^verbatim>\<open>getchar\<close> selects the handler that runs next.
\<close>

definition update :: "game \<Rightarrow> game" where
  "update g = level_loop g"

subsection \<open>\<^verbatim>\<open>next_shape\<close> (lines 244-256) and \<^verbatim>\<open>init\<close> (lines 395-416)\<close>

text \<open>
  \<open>r\<close> is the value of one call of \<^verbatim>\<open>rand\<close>. The function calls itself once more when
  \<^verbatim>\<open>peek_shape\<close> was null, which takes a second draw \<open>r'\<close>.
\<close>

definition draw_peek :: "game \<Rightarrow> nat \<Rightarrow> game" where
  "draw_peek g r = g\<lparr>peek_shape := Some (r mod 7), pcolor := field (r mod 7) 4\<rparr>"

definition next_shape :: "game \<Rightarrow> nat \<Rightarrow> nat \<Rightarrow> game" where
  "next_shape g r r' =
     (case peek_shape g of
        Some n \<Rightarrow> (draw_peek g r)\<lparr>color := field n 4, shape := n\<rparr>
      | None \<Rightarrow> (draw_peek (draw_peek g r) r')\<lparr>color := field (r mod 7) 4, shape := r mod 7\<rparr>)"

definition init :: "game \<Rightarrow> nat \<Rightarrow> nat \<Rightarrow> game" where
  "init g r r' =
     next_shape (g\<lparr>level := 1, points := 0, lines_cleared := 0, pos := 17,
                   board := init_board\<rparr>) r r'"

subsection \<open>The clear-cycle (lines 440-465)\<close>

text \<open>
  Lines 450-461 for a full row \<open>i\<close>: clear the row, \<^verbatim>\<open>update\<close>, shift, \<^verbatim>\<open>update\<close>. (The keys
  that these two calls of \<^verbatim>\<open>update\<close> return are overwritten at line 488.)
\<close>

definition clear_at :: "game \<Rightarrow> nat \<Rightarrow> game" where
  "clear_at g i =
     (let g1 = update (g\<lparr>board := clear_row (board g) i\<rparr>)
      in update (g1\<lparr>board := shift_down i (board g1)\<rparr>))"

text \<open>
  The scan of rows \<open>1 .. B_ROWS - 3\<close>. After a clear and shift at row \<open>i\<close> the source
  decrements \<open>i\<close> and the loop header increments it again, so the next iteration has the
  same \<open>i\<close>. The loop need not end: \<open>None\<close> is the run that never leaves it.
\<close>

partial_function (option) scan_rows :: "game \<Rightarrow> nat \<Rightarrow> nat \<Rightarrow> (game \<times> nat) option" where
  "scan_rows g i clears =
     (if i < B_ROWS - 2 then
        if row_full (board g) i then scan_rows (clear_at g i) i (clears + 1)
        else scan_rows g (i + 1) clears
      else Some (g, clears))"

definition clear_cycle :: "game \<Rightarrow> (game \<times> nat) option" where
  "clear_cycle g = scan_rows g 1 0"

subsection \<open>Scoring (lines 467-487)\<close>

text \<open>
  \<^verbatim>\<open>points\<close> is a \<^verbatim>\<open>long\<close>, taken as 64 bits wide, \<^verbatim>\<open>level\<close> and the table entries are
  \<^verbatim>\<open>int\<close>s of 32 bits. Overflow of a signed operation is undefined behaviour and is made
  the value \<open>Inl SignedOverflow\<close>.
\<close>

abbreviation (input) INT_MAX :: int where "INT_MAX \<equiv> 2147483647"
abbreviation (input) LONG_MAX :: int where "LONG_MAX \<equiv> 9223372036854775807"

definition int_mul :: "int \<Rightarrow> int \<Rightarrow> fault + int" where
  "int_mul a b = (if - INT_MAX - 1 \<le> a * b \<and> a * b \<le> INT_MAX then Inr (a * b) else Inl SignedOverflow)"

definition long_add :: "int \<Rightarrow> int \<Rightarrow> fault + int" where
  "long_add a b = (if - LONG_MAX - 1 \<le> a + b \<and> a + b \<le> LONG_MAX then Inr (a + b) else Inl SignedOverflow)"

text \<open>
  The conversion of a \<^verbatim>\<open>long\<close> to \<^verbatim>\<open>double\<close>: the nearest number with a significand of 53
  bits, ties to the even significand. Every such value of this magnitude is an integer,
  so the result is an \<^typ>\<open>int\<close>. \<open>dexp a\<close> is the number of low bits of \<open>a\<close> that a
  significand of 53 bits cannot hold.
\<close>

function dexp :: "int \<Rightarrow> nat" where
  "dexp a = (if a < 2 ^ 53 then 0 else Suc (dexp (a div 2)))"
  by pat_completeness auto
termination
  by (relation "measure nat") auto

definition round_even :: "int \<Rightarrow> nat \<Rightarrow> int" where
  "round_even a e =
     (let q = 2 ^ e; m = a div q; r = a mod q
      in (if 2 * r > q \<or> (2 * r = q \<and> odd m) then m + 1 else m) * q)"

definition double_of_long :: "int \<Rightarrow> int" where
  "double_of_long x = sgn x * round_even \<bar>x\<bar> (dexp \<bar>x\<bar>)"

definition score_table :: "int list" where
  "score_table = [0, 40, 100, 300, 1200]"

text \<open>Reading \<^verbatim>\<open>score_table[clears]\<close>.\<close>

definition score_entry :: "nat \<Rightarrow> fault + int" where
  "score_entry clears = (if clears < 5 then Inr (score_table ! clears) else Inl OutOfBounds)"

text \<open>\<^verbatim>\<open>points + score_table[clears] * level\<close>, as the source computes it twice.\<close>

definition new_points :: "game \<Rightarrow> nat \<Rightarrow> fault + int" where
  "new_points g clears =
     (case score_entry clears of Inl e \<Rightarrow> Inl e | Inr base \<Rightarrow>
     (case int_mul base (level g) of Inl e \<Rightarrow> Inl e | Inr award \<Rightarrow>
      long_add (points g) award))"

text \<open>The block ends the program with "YOU HAVE WON" (\<open>Won\<close>) or goes on.\<close>

datatype outcome = Won | Continue game

definition score_lock :: "game \<Rightarrow> nat \<Rightarrow> fault + outcome" where
  "score_lock g clears =
     (if clears > 0 then
        (case new_points g clears of Inl e \<Rightarrow> Inl e | Inr tot \<Rightarrow>
           let ofcheck = double_of_long tot in
           if ofcheck > double_of_long LONG_MAX then Inr Won
           else (case new_points g clears of Inl e \<Rightarrow> Inl e | Inr tot' \<Rightarrow>
                   Inr (Continue (g\<lparr>points := tot',
                                     lines_cleared := lines_cleared g + int clears\<rparr>))))
      else Inr (Continue g))"

text \<open>
  Lines 467-488: the scoring block and the call of \<^verbatim>\<open>update\<close> that follows it, for a
  clear-cycle that returned \<open>clears\<close>.
\<close>

definition lock_tail :: "game \<Rightarrow> nat \<Rightarrow> fault + outcome" where
  "lock_tail g clears =
     (case score_lock g clears of
        Inl e \<Rightarrow> Inl e
      | Inr Won \<Rightarrow> Inr Won
      | Inr (Continue g') \<Rightarrow> Inr (Continue (update g')))"

subsection \<open>Rotation (lines 518-539)\<close>

text \<open>
  \<^verbatim>\<open>KEY_ROTATE\<close> searches the catalog for the first entry whose successor field is the
  current index and keeps the current index when there is none.
\<close>

definition find_prev :: "nat \<Rightarrow> nat" where
  "find_prev curr_idx =
     (case find (\<lambda>i. field i 0 = int curr_idx) [0..<19] of Some i \<Rightarrow> i | None \<Rightarrow> curr_idx)"

definition key_rotate :: "game \<Rightarrow> fault + game" where
  "key_rotate g =
     (let backup = shape g;
          g1 = g\<lparr>shape := find_prev (shape g)\<rparr>
      in case fits_in (board g1) (shape g1) (pos g1) of
           Inl e \<Rightarrow> Inl e
         | Inr ok \<Rightarrow> Inr (if \<not> ok then g1\<lparr>shape := backup\<rparr> else g1))"

text \<open>\<^verbatim>\<open>KEY_RROTATE\<close> follows the successor field: \<^verbatim>\<open>shape = &shapes[5 * *shape]\<close>.\<close>

definition key_rrotate :: "game \<Rightarrow> fault + game" where
  "key_rrotate g =
     (let backup = shape g;
          g1 = g\<lparr>shape := nat (field (shape g) 0)\<rparr>
      in case fits_in (board g1) (shape g1) (pos g1) of
           Inl e \<Rightarrow> Inl e
         | Inr ok \<Rightarrow> Inr (if \<not> ok then g1\<lparr>shape := backup\<rparr> else g1))"

subsection \<open>Moving the piece (lines 513-516 and 541-549)\<close>

text \<open>
  \<^verbatim>\<open>KEY_LEFT\<close> and \<^verbatim>\<open>KEY_RIGHT\<close> change the anchor first and undo the change when the piece
  does not fit there. \<^verbatim>\<open>KEY_DROP\<close> lowers the anchor row by row while the piece fits, one
  point for each row.
\<close>

definition key_left :: "game \<Rightarrow> fault + game" where
  "key_left g =
     (let g1 = g\<lparr>pos := pos g - 1\<rparr>
      in case fits_in (board g1) (shape g1) (pos g1) of
           Inl e \<Rightarrow> Inl e
         | Inr ok \<Rightarrow> Inr (if \<not> ok then g1\<lparr>pos := pos g1 + 1\<rparr> else g1))"

definition key_right :: "game \<Rightarrow> fault + game" where
  "key_right g =
     (let g1 = g\<lparr>pos := pos g + 1\<rparr>
      in case fits_in (board g1) (shape g1) (pos g1) of
           Inl e \<Rightarrow> Inl e
         | Inr ok \<Rightarrow> Inr (if \<not> ok then g1\<lparr>pos := pos g1 - 1\<rparr> else g1))"

function key_drop :: "game \<Rightarrow> fault + game" where
  "key_drop g =
     (case fits_in (board g) (shape g) (pos g + int B_COLS) of
        Inl e \<Rightarrow> Inl e
      | Inr ok \<Rightarrow>
          if ok then
            (case long_add (points g) 1 of
               Inl e \<Rightarrow> Inl e
             | Inr p \<Rightarrow> key_drop (g\<lparr>pos := pos g + int B_COLS, points := p\<rparr>))
          else Inr g)"
  by pat_completeness auto
termination
proof (relation "measure (\<lambda>g. nat (int B_SIZE - pos g))")
  show "wf (measure (\<lambda>g. nat (int B_SIZE - pos g)))" by simp
next
  fix g :: game and ok p
  assume "fits_in (board g) (shape g) (pos g + int B_COLS) = Inr ok" and ok
  then have "pos g + int B_COLS < int B_SIZE"
    by (auto simp: fits_in_def cell_def split: if_splits sum.splits)
  then show "(g\<lparr>pos := pos g + int B_COLS, points := p\<rparr>, g) \<in> measure (\<lambda>g. nat (int B_SIZE - pos g))"
    by simp
qed

subsection \<open>The gravity tick (lines 435-511) and the display of the piece (lines 578-580)\<close>

text \<open>
  How an iteration of the main loop goes on after a tick: with the game (\<open>Go\<close>), with
  "YOU HAVE FAILED" (\<open>Over\<close>, after which \<^verbatim>\<open>init\<close> starts a new game or the program ends),
  or with "YOU HAVE WON" (\<open>Win\<close>).

  A piece that cannot move down is locked: it is placed for good, the clear-cycle runs,
  the score is updated, \<^verbatim>\<open>update\<close> runs, and the next piece is taken at the anchor 17. The
  two numbers are the draws of \<^verbatim>\<open>rand\<close> for \<^verbatim>\<open>next_shape\<close>. \<open>None\<close> is a clear-cycle that
  does not return.
\<close>

datatype step = Go game | Over game | Win

definition lock :: "game \<Rightarrow> nat \<Rightarrow> nat \<Rightarrow> (fault + step) option" where
  "lock g r r' =
     (case place (board g) (shape g) (pos g) (color g) of
        Inl e \<Rightarrow> Some (Inl e)
      | Inr b1 \<Rightarrow>
     (case clear_cycle (g\<lparr>board := b1\<rparr>) of
        None \<Rightarrow> None
      | Some (g2, clears) \<Rightarrow>
     (case lock_tail g2 clears of
        Inl e \<Rightarrow> Some (Inl e)
      | Inr Won \<Rightarrow> Some (Inr Win)
      | Inr (Continue g3) \<Rightarrow>
          let g4 = (next_shape g3 r r')\<lparr>pos := 17\<rparr>
          in (case fits_in (board g4) (shape g4) (pos g4) of
                Inl e \<Rightarrow> Some (Inl e)
              | Inr ok \<Rightarrow> Some (Inr (if \<not> ok then Over g4 else Go g4))))))"

definition tick :: "game \<Rightarrow> nat \<Rightarrow> nat \<Rightarrow> (fault + step) option" where
  "tick g r r' =
     (case fits_in (board g) (shape g) (pos g + int B_COLS) of
        Inl e \<Rightarrow> Some (Inl e)
      | Inr ok \<Rightarrow> if ok then Some (Inr (Go (g\<lparr>pos := pos g + int B_COLS\<rparr>))) else lock g r r')"

text \<open>
  The end of every iteration: the piece is placed with its colour, \<^verbatim>\<open>update\<close> draws the
  board, and the piece is taken off again.
\<close>

definition show_piece :: "game \<Rightarrow> fault + game" where
  "show_piece g =
     (case place (board g) (shape g) (pos g) (color g) of
        Inl e \<Rightarrow> Inl e
      | Inr b1 \<Rightarrow>
          let g1 = update (g\<lparr>board := b1\<rparr>)
          in (case place (board g1) (shape g1) (pos g1) 0 of
                Inl e \<Rightarrow> Inl e
              | Inr b2 \<Rightarrow> Inr (g1\<lparr>board := b2\<rparr>)))"

section \<open>Notions of the statements\<close>

subsection \<open>Cells and regions of the board\<close>

text \<open>The four absolute cells of shape \<open>k\<close> anchored at \<open>a\<close>.\<close>

definition cells :: "nat \<Rightarrow> int \<Rightarrow> int list" where
  "cells k a = [a, a + field k 1, a + field k 2, a + field k 3]"

definition in_board :: "int \<Rightarrow> bool" where
  "in_board p \<longleftrightarrow> 0 \<le> p \<and> p < int B_SIZE"

text \<open>
  \<open>playing j\<close>: cell \<open>j\<close> is one of the cells that the initialisation leaves empty, rows
  \<open>0 .. B_ROWS - 3\<close> and columns \<open>1 .. B_COLS - 2\<close>. All other cells of the array are the
  border that the initialisation writes: the leftmost and the rightmost column and the
  two bottom rows. \<open>border_ok\<close> says that they hold the border tag 60.
\<close>

definition playing :: "nat \<Rightarrow> bool" where
  "playing j \<longleftrightarrow> j div B_COLS < B_ROWS - 2 \<and> 1 \<le> j mod B_COLS \<and> j mod B_COLS < B_COLS - 1"

definition border_ok :: "board \<Rightarrow> bool" where
  "border_ok b \<longleftrightarrow> length b = B_SIZE \<and> list_all (\<lambda>j. playing j \<or> b ! j = 60) [0..<B_SIZE]"

text \<open>
  The outermost ring: top row, bottom row, leftmost and rightmost column. \<open>ring_tagged\<close>
  says that every cell of the ring holds the border tag.
\<close>

definition ring :: "nat \<Rightarrow> bool" where
  "ring j \<longleftrightarrow> j div B_COLS = 0 \<or> j div B_COLS = B_ROWS - 1 \<or> j mod B_COLS = 0 \<or> j mod B_COLS = B_COLS - 1"

definition ring_tagged :: "board \<Rightarrow> bool" where
  "ring_tagged b \<longleftrightarrow> length b = B_SIZE \<and> list_all (\<lambda>j. ring j \<longrightarrow> b ! j = 60) [0..<B_SIZE]"


subsection \<open>The clear-cycle on rows\<close>

text \<open>
  The playing cells of row \<open>r\<close>, and the rows \<open>0 .. B_ROWS - 3\<close> of a board as a list;
  \<open>with_rows\<close> writes such a list back into the playing cells of a board.
\<close>

definition row_cells :: "board \<Rightarrow> nat \<Rightarrow> int list" where
  "row_cells b r = map (\<lambda>x. b ! (r * B_COLS + x)) [1..<B_COLS - 1]"

definition rows :: "board \<Rightarrow> int list list" where
  "rows b = map (row_cells b) [0..<B_ROWS - 2]"

definition with_rows :: "board \<Rightarrow> int list list \<Rightarrow> board" where
  "with_rows b rs =
     map (\<lambda>j. if playing j then rs ! (j div B_COLS) ! (j mod B_COLS - 1) else b ! j) [0..<B_SIZE]"

definition full_cells :: "int list \<Rightarrow> bool" where
  "full_cells cs = list_all (\<lambda>c. c \<noteq> 0) cs"

text \<open>
  What a clear-cycle is to do, on the list of rows: every full row below row 0 goes, the
  rows that stay keep their order and move down by one for each full row that was below
  them, and each vacated place at the top holds a copy of row 0, which the shift never
  clears.
\<close>

definition compacted :: "int list list \<Rightarrow> int list list" where
  "compacted rs =
     (let keep = filter (\<lambda>r. \<not> full_cells r) (tl rs)
      in replicate (length rs - length keep) (hd rs) @ keep)"

text \<open>The number of full rows among the rows of the scan.\<close>

definition full_rows :: "board \<Rightarrow> nat" where
  "full_rows b = length (filter (row_full b) [1..<B_ROWS - 2])"

subsection \<open>A sequence of locks\<close>

text \<open>
  The counters over one game: the locks of successive pieces, each given by the number
  of rows its clear-cycle returned.
\<close>

fun locks :: "game \<Rightarrow> nat list \<Rightarrow> fault + outcome" where
  "locks g [] = Inr (Continue g)"
| "locks g (clears # rest) =
     (case lock_tail g clears of
        Inl e \<Rightarrow> Inl e
      | Inr Won \<Rightarrow> Inr Won
      | Inr (Continue g') \<Rightarrow> locks g' rest)"

subsection \<open>The state between two operations of a session\<close>

text \<open>
  What holds of the game whenever the main loop is between two of its operations: the
  border is in place, the falling piece is a catalog entry, its anchor is not in row 0,
  it fits where it is (it is not on the board then), and the preview is one of the seven
  base shapes.
\<close>

definition session_ok :: "game \<Rightarrow> bool" where
  "session_ok g \<longleftrightarrow> border_ok (board g) \<and> shape g < 19 \<and> 12 \<le> pos g
     \<and> fits_in (board g) (shape g) (pos g) = Inr True
     \<and> (case peek_shape g of None \<Rightarrow> False | Some n \<Rightarrow> n < 7)"

subsection \<open>Sample states and boards\<close>

text \<open>
  The state when \<^verbatim>\<open>main\<close> starts: the statics as C initialises them, with \<^verbatim>\<open>shape\<close> and
  \<^verbatim>\<open>pos\<close> not yet set (the model puts 0 there). \<open>start\<close> is the state after the first
  \<^verbatim>\<open>init\<close> when \<^verbatim>\<open>rand\<close> returns 6 and then 0: the horizontal bar at the spawn anchor 17,
  the first catalog entry as preview.
\<close>

definition boot :: game where
  "boot = \<lparr>level = 1, points = 0, lines_cleared = 0, board = replicate B_SIZE 0,
            peek_shape = None, pcolor = 0, shape = 0, color = 0, pos = 0\<rparr>"

definition start :: game where
  "start = init boot 6 0"


text \<open>The initial board with the border tag on the whole outermost ring, top row included.\<close>

definition ringed_board :: board where
  "ringed_board = map (\<lambda>j. if ring j then 60 else init_board ! j) [0..<B_SIZE]"

text \<open>
  A board with the stack at the top, before the last piece locks: row 0 is occupied except
  for column 5, row 1 is free in columns 4 to 6, row 2 is occupied except for column 5,
  and the rows below are occupied except for column 10.
\<close>

definition near_top :: board where
  "near_top =
     map (\<lambda>j. if \<not> playing j then init_board ! j
              else if j div B_COLS = 0 then (if j mod B_COLS = 5 then 0 else 3)
              else if j div B_COLS = 1 then (if j mod B_COLS \<in> {4, 5, 6} then 0 else 3)
              else if j div B_COLS = 2 then (if j mod B_COLS = 5 then 0 else 3)
              else (if j mod B_COLS = 10 then 0 else 3)) [0..<B_SIZE]"

text \<open>
  The board \<open>near_top\<close> after the T piece, upright with its stem to the left (catalog entry
  11), has locked at the spawn anchor 17; and a board with rows 19 and 20 full and three
  cells in row 18.
\<close>

definition top_board :: board where
  "top_board = near_top[17 := 1, 5 := 1, 16 := 1, 29 := 1]"

definition two_lines :: board where
  "two_lines =
     map (\<lambda>j. if \<not> playing j then init_board ! j
              else if 19 \<le> j div B_COLS then 3
              else if j div B_COLS = 18 \<and> j mod B_COLS \<le> 3 then 5
              else 0) [0..<B_SIZE]"

section \<open>Properties\<close>

subsection \<open>The shape catalog\<close>

lemma shape_cases:
  "k < 19 \<Longrightarrow> k = 0 \<or> k = 1 \<or> k = 2 \<or> k = 3 \<or> k = 4 \<or> k = 5 \<or> k = 6 \<or> k = 7 \<or> k = 8 \<or> k = 9
     \<or> k = 10 \<or> k = 11 \<or> k = 12 \<or> k = 13 \<or> k = 14 \<or> k = 15 \<or> k = 16 \<or> k = 17 \<or> k = (18::nat)"
  by arith

lemma field_bounds:
  assumes "k < 19"
  shows "-13 \<le> field k 1 \<and> field k 1 \<le> 13"
    and "-13 \<le> field k 2 \<and> field k 2 \<le> 13"
    and "-13 \<le> field k 3 \<and> field k 3 \<le> 24"
  using shape_cases [OF assms] by (auto simp: field_def shapes_def)

lemma field3_small: "k < 18 \<Longrightarrow> field k 3 \<le> 13"
  using shape_cases [of k] by (auto simp: field_def shapes_def)

lemma field_18: "field 18 1 = -12" "field 18 2 = 12" "field 18 3 = 24"
  by (simp_all add: field_def shapes_def)

lemma succ_lt: "k < 19 \<Longrightarrow> 0 \<le> field k 0 \<and> field k 0 < 19"
  using shape_cases [of k] by (auto simp: field_def shapes_def)

lemma find_prev_succ:
  assumes "k < 19" shows "find_prev (nat (field k 0)) = k"
  using shape_cases [OF assms] by (elim disjE; hypsubst; code_simp)

lemma succ_find_prev:
  assumes "k < 19" shows "find_prev k < 19 \<and> field (find_prev k) 0 = int k"
  using shape_cases [OF assms] by (elim disjE; hypsubst; code_simp)

lemma succ_inj: "i < 19 \<Longrightarrow> j < 19 \<Longrightarrow> field i 0 = field j 0 \<Longrightarrow> i = j"
proof -
  assume "i < 19" "j < 19" "field i 0 = field j 0"
  then have "find_prev (nat (field i 0)) = find_prev (nat (field j 0))" by simp
  with \<open>i < 19\<close> \<open>j < 19\<close> show "i = j" by (simp add: find_prev_succ)
qed

text \<open>
  Claim C10. The successor fields of the nineteen catalog entries are a permutation of
  \<open>0 .. 18\<close>: following the successor field is a bijection on the catalog indices. Hence
  for every index \<open>k\<close> the linear search of \<^verbatim>\<open>KEY_ROTATE\<close> finds an entry, that entry has
  \<open>k\<close> as its successor, and it is the only entry of the catalog that has.
\<close>

theorem successor_permutation:
  "bij_betw (\<lambda>k. nat (field k 0)) {..<19} {..<19}
   \<and> (\<forall>k<19. find_prev k < 19 \<and> field (find_prev k) 0 = int k
          \<and> (\<forall>i<19. field i 0 = int k \<longrightarrow> i = find_prev k))"
proof (intro conjI allI impI)
  show "bij_betw (\<lambda>k. nat (field k 0)) {..<19} {..<19}"
  proof (rule bij_betw_byWitness [where f' = find_prev])
    show "\<forall>a\<in>{..<19}. find_prev (nat (field a 0)) = a" by (simp add: find_prev_succ)
    show "\<forall>a'\<in>{..<19}. nat (field (find_prev a') 0) = a'" by (simp add: succ_find_prev)
    show "(\<lambda>k. nat (field k 0)) ` {..<19} \<subseteq> {..<19}" using succ_lt by (auto simp: nat_less_iff)
    show "find_prev ` {..<19} \<subseteq> {..<19}" using succ_find_prev by auto
  qed
next
  fix k :: nat assume "k < 19"
  then show "find_prev k < 19" "field (find_prev k) 0 = int k" by (simp_all add: succ_find_prev)
  fix i :: nat assume "i < 19" "field i 0 = int k"
  with \<open>k < 19\<close> show "i = find_prev k"
    using succ_inj [of i "find_prev k"] by (simp add: succ_find_prev)
qed

theorem successor_permutation_witness:
  "(4::nat) < 19 \<and> find_prev 4 = 14 \<and> field 14 0 = 4 \<and> nat (field 4 0) = 12"
proof -
  have "field 14 0 = int 4" by (simp add: field_def shapes_def)
  with successor_permutation have "14 = find_prev 4" by simp
  then show ?thesis by (simp add: field_def shapes_def)
qed

subsection \<open>The initial board\<close>

lemma length_init_board: "length init_board = B_SIZE"
  by (simp add: init_board_def)

lemma nth_init_board:
  "j < B_SIZE \<Longrightarrow> init_board ! j = (if B_SIZE - j < 25 \<or> (B_SIZE - j) mod B_COLS < 2 then 60 else 0)"
proof -
  assume j: "j < B_SIZE"
  then have "rev [1..<Suc B_SIZE] ! j = B_SIZE - j"
    by (simp add: rev_nth)
  with j show ?thesis
    by (simp add: init_board_def)
qed

lemma list_all_upt: "list_all P [0..<n] \<longleftrightarrow> (\<forall>j<n. P j)"
  by (auto simp: list_all_iff)

lemma init_board_cells:
  assumes "j < B_SIZE"
  shows "init_board ! j = (if playing j then 0 else 60)"
proof -
  have j: "j = 12 * (j div 12) + j mod 12" by simp
  have m: "j mod 12 < 12" by simp
  have d: "j div 12 < 23" using assms by simp
  have "(276 - j) mod 12 = (12 - j mod 12) mod 12"
  proof -
    have "276 - j = (12 - j mod 12) + 12 * (22 - j div 12)" using j m d by linarith
    then show ?thesis by (simp only: mod_mult_self2)
  qed
  moreover have "(276 - j < 25) = (21 \<le> j div 12)" using j m assms by linarith
  moreover have "((12 - j mod 12) mod 12 < 2) = (j mod 12 = 0 \<or> j mod 12 = 11)"
  proof (cases "j mod 12 = 0")
    case True
    then show ?thesis by simp
  next
    case False
    then have "(12 - j mod 12) mod 12 = 12 - j mod 12" using m by simp
    with False m show ?thesis by linarith
  qed
  ultimately show ?thesis
    using assms m by (auto simp: nth_init_board playing_def)
qed

lemma start_eq:
  "start = \<lparr>level = 1, points = 0, lines_cleared = 0, board = init_board,
            peek_shape = Some 0, pcolor = 2, shape = 6, color = 7, pos = 17\<rparr>"
  by (simp add: start_def init_def boot_def next_shape_def draw_peek_def field_def shapes_def)

subsection \<open>The collision test\<close>

lemma fits_in_in_board:
  assumes "in_board a" "in_board (a + field k 1)"
    "in_board (a + field k 2)" "in_board (a + field k 3)"
  shows "fits_in b k a =
     Inr (b ! nat a = 0 \<and> b ! nat (a + field k 1) = 0
        \<and> b ! nat (a + field k 2) = 0 \<and> b ! nat (a + field k 3) = 0)"
  using assms by (simp add: fits_in_def cell_def in_board_def)

text \<open>
  Claim C1. For every catalog shape and every anchor whose four absolute cells are cells
  of the board, \<open>fits_in\<close> returns false exactly when at least one of \<^verbatim>\<open>board[anchor]\<close>,
  \<^verbatim>\<open>board[anchor + offset1]\<close>, \<^verbatim>\<open>board[anchor + offset2]\<close>, \<^verbatim>\<open>board[anchor + offset3]\<close> is
  non-zero, and true exactly when all four are zero.
\<close>

theorem fits_in_iff_cells_empty:
  assumes "k < 19" and "list_all in_board (cells k a)"
  shows "(fits_in b k a = Inr False \<longleftrightarrow> (\<exists>p \<in> set (cells k a). b ! nat p \<noteq> 0))
       \<and> (fits_in b k a = Inr True \<longleftrightarrow> (\<forall>p \<in> set (cells k a). b ! nat p = 0))"
  using assms by (auto simp: cells_def fits_in_in_board)

theorem fits_in_iff_cells_empty_witness:
  "list_all in_board (cells 0 17) \<and> fits_in init_board 0 17 = Inr True
   \<and> list_all (\<lambda>p. init_board ! nat p = 0) (cells 0 17)"
proof -
  have h: "list_all in_board (cells 0 17)"
    by (simp add: cells_def in_board_def field_def shapes_def)
  have z: "list_all (\<lambda>p. init_board ! nat p = 0) (cells 0 17)"
    by (simp add: cells_def field_def shapes_def nth_init_board)
  with h fits_in_iff_cells_empty [of 0 17 init_board] show ?thesis
    by (simp add: list_all_iff)
qed

lemma in_board_nat: "in_board p \<Longrightarrow> nat p < B_SIZE"
  unfolding in_board_def by linarith

lemma fits_in_True_iff:
  "fits_in b k a = Inr True \<longleftrightarrow>
     list_all in_board (cells k a) \<and> list_all (\<lambda>p. b ! nat p = 0) (cells k a)"
  by (auto simp: fits_in_def cell_def cells_def in_board_def split: sum.splits if_splits)

lemma fits_in_anchor_occupied:
  "in_board a \<Longrightarrow> b ! nat a \<noteq> 0 \<Longrightarrow> fits_in b k a = Inr False"
  by (simp add: fits_in_def cell_def in_board_def)

lemma fits_in_cell_occupied:
  assumes "list_all in_board (cells k a)" "p \<in> set (cells k a)" "b ! nat p \<noteq> 0"
  shows "fits_in b k a = Inr False"
proof -
  from assms(1) have "fits_in b k a =
     Inr (b ! nat a = 0 \<and> b ! nat (a + field k 1) = 0
        \<and> b ! nat (a + field k 2) = 0 \<and> b ! nat (a + field k 3) = 0)"
    by (intro fits_in_in_board) (simp_all add: cells_def)
  with assms(2,3) show ?thesis by (auto simp: cells_def)
qed

lemma inner_cells_in_board:
  assumes "k < 19" "13 \<le> a" "a \<le> 250"
  shows "list_all in_board (cells k a)"
  using field_bounds [OF assms(1)] assms(2,3)
  by (simp add: cells_def in_board_def)

subsection \<open>Rotation\<close>

text \<open>
  Claim C8. For a piece whose shape is a catalog entry, at any anchor: following the
  successor link (\<^verbatim>\<open>KEY_RROTATE\<close>) and then searching the predecessor (\<^verbatim>\<open>KEY_ROTATE\<close>) gives
  back the state it started from, and so does the other order, provided the rotated
  shape and the original shape fit at the anchor. A rotation whose result does not fit
  leaves shape and anchor as they were.
\<close>

theorem rotation_round_trip:
  assumes "shape g < 19"
  shows "(fits_in (board g) (nat (field (shape g) 0)) (pos g) = Inr True
            \<and> fits_in (board g) (shape g) (pos g) = Inr True \<longrightarrow>
          key_rrotate g = Inr (g\<lparr>shape := nat (field (shape g) 0)\<rparr>)
            \<and> key_rotate (g\<lparr>shape := nat (field (shape g) 0)\<rparr>) = Inr g)
       \<and> (fits_in (board g) (find_prev (shape g)) (pos g) = Inr True
            \<and> fits_in (board g) (shape g) (pos g) = Inr True \<longrightarrow>
          key_rotate g = Inr (g\<lparr>shape := find_prev (shape g)\<rparr>)
            \<and> key_rrotate (g\<lparr>shape := find_prev (shape g)\<rparr>) = Inr g)
       \<and> (fits_in (board g) (nat (field (shape g) 0)) (pos g) = Inr False \<longrightarrow> key_rrotate g = Inr g)
       \<and> (fits_in (board g) (find_prev (shape g)) (pos g) = Inr False \<longrightarrow> key_rotate g = Inr g)"
  using find_prev_succ [OF assms] succ_find_prev [OF assms]
  by (simp add: key_rotate_def key_rrotate_def Let_def)

theorem rotation_round_trip_witness:
  "key_rrotate start = Inr (start\<lparr>shape := 18\<rparr>)
   \<and> key_rotate (start\<lparr>shape := 18\<rparr>) = Inr start
   \<and> key_rotate start = Inr (start\<lparr>shape := 18\<rparr>)
   \<and> key_rrotate (start\<lparr>shape := 18\<rparr>) = Inr start
   \<and> fits_in (board (start\<lparr>shape := 18, pos := 25\<rparr>)) 6 25 = Inr False
   \<and> key_rrotate (start\<lparr>shape := 18, pos := 25\<rparr>) = Inr (start\<lparr>shape := 18, pos := 25\<rparr>)
   \<and> key_rotate (start\<lparr>shape := 18, pos := 25\<rparr>) = Inr (start\<lparr>shape := 18, pos := 25\<rparr>)"
proof -
  have s: "nat (field 6 0) = 18" "find_prev 6 = 18" "nat (field 18 0) = 6" "find_prev 18 = 6"
    by code_simp+
  have f: "fits_in init_board 18 17 = Inr True" "fits_in init_board 6 17 = Inr True"
    "fits_in init_board 6 25 = Inr False"
    by (simp_all add: fits_in_def cell_def field_def shapes_def nth_init_board)
  from rotation_round_trip [of start] rotation_round_trip [of "start\<lparr>shape := 18, pos := 25\<rparr>"]
  show ?thesis
    by (simp add: start_eq s f)
qed

subsection \<open>Scoring and the overflow test\<close>

declare dexp.simps [simp del]

declare level_loop.simps [simp del]

lemma dexp_div: "0 \<le> a \<Longrightarrow> a div 2 ^ dexp a < 2 ^ 53"
proof (induction a rule: dexp.induct)
  case (1 a)
  show ?case
  proof (cases "a < 2 ^ 53")
    case True
    then show ?thesis by (simp add: dexp.simps [of a])
  next
    case False
    with 1 have "a div 2 div 2 ^ dexp (a div 2) < 2 ^ 53" by simp
    moreover have "a div 2 ^ dexp a = a div 2 div 2 ^ dexp (a div 2)"
      using False by (simp add: dexp.simps [of a] zdiv_zmult2_eq)
    ultimately show ?thesis by simp
  qed
qed

lemma dexp_le: "a < 2 ^ (53 + n) \<Longrightarrow> dexp a \<le> n"
proof (induction n arbitrary: a)
  case 0
  then show ?case by (simp add: dexp.simps [of a])
next
  case (Suc n)
  show ?case
  proof (cases "a < 2 ^ 53")
    case True
    then show ?thesis by (simp add: dexp.simps [of a])
  next
    case False
    have "(2::int) ^ (53 + Suc n) = 2 * 2 ^ (53 + n)"
      by (simp only: add_Suc_right power_Suc)
    with Suc.prems have "a < 2 * 2 ^ (53 + n)" by (simp only:)
    then have "a div 2 < 2 ^ (53 + n)" by linarith
    then have "dexp (a div 2) \<le> n" by (rule Suc.IH)
    with False show ?thesis by (simp add: dexp.simps [of a])
  qed
qed

lemma round_even_nonneg: "0 \<le> a \<Longrightarrow> 0 \<le> round_even a e"
  by (simp add: round_even_def Let_def pos_imp_zdiv_nonneg_iff)

lemma round_even_le:
  assumes "0 \<le> a" "a div 2 ^ e < M"
  shows "round_even a e \<le> M * 2 ^ e"
proof -
  have "(if 2 * (a mod 2 ^ e) > 2 ^ e \<or> (2 * (a mod 2 ^ e) = 2 ^ e \<and> odd (a div 2 ^ e))
          then a div 2 ^ e + 1 else a div 2 ^ e) \<le> M"
    using assms by simp
  then show ?thesis
    unfolding round_even_def Let_def by (rule mult_right_mono) simp
qed

lemma double_of_long_le:
  assumes "x \<le> LONG_MAX"
  shows "double_of_long x \<le> 2 ^ 63"
proof (cases "0 \<le> x")
  case True
  then have a: "\<bar>x\<bar> = x" by simp
  from assms have "x < 2 ^ (53 + 10)" by simp
  then have e: "dexp x \<le> 10" by (rule dexp_le)
  have "round_even x (dexp x) \<le> 2 ^ 53 * 2 ^ dexp x"
    using True dexp_div [OF True] by (rule round_even_le)
  also have "\<dots> \<le> 2 ^ 53 * (2 ^ 10 :: int)"
    using e by (intro mult_left_mono power_increasing) simp_all
  finally have "round_even x (dexp x) \<le> 2 ^ 63" by simp
  moreover have "0 \<le> round_even x (dexp x)" using True by (rule round_even_nonneg)
  ultimately show ?thesis
    using True by (cases "x = 0") (simp_all add: double_of_long_def a)
next
  case False
  then have "0 \<le> round_even \<bar>x\<bar> (dexp \<bar>x\<bar>)" by (intro round_even_nonneg) simp
  with False show ?thesis by (simp add: double_of_long_def)
qed

lemma double_of_LONG_MAX: "double_of_long LONG_MAX = 2 ^ 63"
  by code_simp

lemma long_add_le: "long_add a b = Inr s \<Longrightarrow> s \<le> LONG_MAX"
  by (auto simp: long_add_def split: if_splits)

lemma new_points_le: "new_points g c = Inr s \<Longrightarrow> s \<le> LONG_MAX"
  by (auto simp: new_points_def dest: long_add_le split: sum.splits)

lemma score_lock_never_won: "score_lock g clears \<noteq> Inr Won"
proof -
  have "\<not> double_of_long s > double_of_long LONG_MAX" if "new_points g clears = Inr s" for s
    using double_of_long_le [OF new_points_le [OF that]] by (simp add: double_of_LONG_MAX)
  then show ?thesis
    by (auto simp: score_lock_def Let_def split: sum.splits)
qed

lemma score_lock_value:
  assumes "1 \<le> clears" "clears \<le> 4"
    and "base = (if clears = 1 then 40 else if clears = 2 then 100 else if clears = 3 then 300 else 1200)"
    and "- INT_MAX - 1 \<le> base * level g" "base * level g \<le> INT_MAX"
    and "- LONG_MAX - 1 \<le> points g + base * level g" "points g + base * level g \<le> LONG_MAX"
  shows "score_lock g clears =
           Inr (Continue (g\<lparr>points := points g + base * level g,
                             lines_cleared := lines_cleared g + int clears\<rparr>))
       \<and> score_lock g 0 = Inr (Continue g)"
proof (rule conjI)
  have e: "score_entry clears = Inr base"
    using assms(1-3) by (auto simp: score_entry_def score_table_def nth_Cons split: nat.splits)
  have n: "new_points g clears = Inr (points g + base * level g)"
    using assms(4-7) by (simp add: new_points_def e int_mul_def long_add_def)
  have "\<not> double_of_long (points g + base * level g) > double_of_long LONG_MAX"
    using double_of_long_le [OF assms(7)] by (simp add: double_of_LONG_MAX)
  then show "score_lock g clears =
           Inr (Continue (g\<lparr>points := points g + base * level g,
                             lines_cleared := lines_cleared g + int clears\<rparr>))"
    using assms(1) by (simp add: score_lock_def n Let_def)
  show "score_lock g 0 = Inr (Continue g)"
    by (simp add: score_lock_def)
qed

text \<open>
  Claim C6. When the clear-cycle of a lock returned \<open>clears\<close> in \<open>1 .. 4\<close>, the scoring
  block adds exactly \<open>base * level\<close> to \<^verbatim>\<open>points\<close>, with \<open>base\<close> 40, 100, 300, 1200 for
  1, 2, 3, 4 rows (and adds \<open>clears\<close> to \<^verbatim>\<open>lines_cleared\<close>); with \<open>clears = 0\<close> it leaves
  the state as it is. The product and the sum are taken within the ranges of \<^verbatim>\<open>int\<close> and
  \<^verbatim>\<open>long\<close>, where the C arithmetic is defined.
\<close>

theorem score_lock_award:
  assumes "1 \<le> clears" "clears \<le> 4"
    and "base = (if clears = 1 then 40 else if clears = 2 then 100 else if clears = 3 then 300 else 1200)"
    and "- INT_MAX - 1 \<le> base * level g" "base * level g \<le> INT_MAX"
    and "- LONG_MAX - 1 \<le> points g + base * level g" "points g + base * level g \<le> LONG_MAX"
  shows "score_lock g clears =
           Inr (Continue (g\<lparr>points := points g + base * level g,
                             lines_cleared := lines_cleared g + int clears\<rparr>))
       \<and> score_lock g 0 = Inr (Continue g)"
  using assms by (rule score_lock_value)

theorem score_lock_award_witness:
  "score_lock (start\<lparr>level := 3\<rparr>) 4 =
     Inr (Continue (start\<lparr>level := 3, points := 3600, lines_cleared := 4\<rparr>))
   \<and> score_lock (start\<lparr>level := 3\<rparr>) 0 = Inr (Continue (start\<lparr>level := 3\<rparr>))"
  using score_lock_award [of 4 1200 "start\<lparr>level := 3\<rparr>"]
  by (simp add: start_eq)


subsection \<open>The level\<close>

lemma level_loop_eq:
  "0 \<le> lines_cleared g \<Longrightarrow>
   level_loop g = g\<lparr>lines_cleared := lines_cleared g mod 10, level := level g + lines_cleared g div 10\<rparr>"
proof (induction g rule: level_loop.induct)
  case (1 g)
  show ?case
  proof (cases "lines_cleared g \<ge> 10")
    case True
    with 1 have "level_loop (g\<lparr>lines_cleared := lines_cleared g - 10, level := level g + 1\<rparr>)
        = g\<lparr>lines_cleared := (lines_cleared g - 10) mod 10, level := level g + 1 + (lines_cleared g - 10) div 10\<rparr>"
      by simp
    moreover have "(lines_cleared g - 10) mod 10 = lines_cleared g mod 10"
      "1 + (lines_cleared g - 10) div 10 = lines_cleared g div 10"
      by presburger+
    ultimately show ?thesis using True
      by (simp add: level_loop.simps [of g] add.assoc)
  next
    case False
    with 1 show ?thesis by (simp add: level_loop.simps [of g])
  qed
qed

lemma level_loop_mono: "level g \<le> level (level_loop g)"
proof (induction g rule: level_loop.induct)
  case (1 g)
  then show ?case by (cases "lines_cleared g \<ge> 10") (simp_all add: level_loop.simps [of g])
qed

lemma score_lock_lines:
  "score_lock g c = Inr (Continue g') \<Longrightarrow>
     lines_cleared g' = lines_cleared g + int c \<and> level g' = level g"
  by (auto simp: score_lock_def Let_def split: if_splits sum.splits)

lemma lock_tail_level:
  assumes "lock_tail g c = Inr (Continue g')" "0 \<le> lines_cleared g"
  shows "level g' = level g + (lines_cleared g + int c) div 10"
    and "lines_cleared g' = (lines_cleared g + int c) mod 10"
proof -
  from assms(1) obtain g1 where s: "score_lock g c = Inr (Continue g1)" and g': "g' = update g1"
    by (auto simp: lock_tail_def split: sum.splits outcome.splits)
  from score_lock_lines [OF s] assms(2) have "0 \<le> lines_cleared g1" by simp
  from level_loop_eq [OF this] score_lock_lines [OF s]
  show "level g' = level g + (lines_cleared g + int c) div 10"
    and "lines_cleared g' = (lines_cleared g + int c) mod 10"
    by (simp_all add: g' update_def)
qed

lemma lock_tail_mono:
  assumes "lock_tail g c = Inr (Continue g')"
  shows "level g \<le> level g'"
proof -
  from assms obtain g1 where s: "score_lock g c = Inr (Continue g1)" and g': "g' = update g1"
    by (auto simp: lock_tail_def split: sum.splits outcome.splits)
  from score_lock_lines [OF s] level_loop_mono [of g1] show ?thesis
    by (simp add: g' update_def)
qed

lemma div_carry: "(x + s) div 10 = x div 10 + (x mod 10 + s) div (10::int)"
proof -
  have "x + s = x div 10 * 10 + (x mod 10 + s)" by simp
  then have "(x + s) div 10 = (x div 10 * 10 + (x mod 10 + s)) div 10" by (rule arg_cong)
  then show ?thesis by (simp only: div_mult_self3)
qed

lemma mod_carry: "(x + s) mod 10 = (x mod 10 + s) mod (10::int)"
  by (simp add: mod_add_left_eq)

lemma locks_level:
  "locks g cs = Inr (Continue g') \<Longrightarrow> 0 \<le> lines_cleared g \<Longrightarrow> lines_cleared g < 10 \<Longrightarrow>
     level g' = level g + (lines_cleared g + int (sum_list cs)) div 10
   \<and> lines_cleared g' = (lines_cleared g + int (sum_list cs)) mod 10"
proof (induction cs arbitrary: g)
  case Nil
  then show ?case by simp
next
  case (Cons c cs)
  from Cons.prems(1) obtain g1 where t: "lock_tail g c = Inr (Continue g1)"
    and r: "locks g1 cs = Inr (Continue g')"
    by (auto split: sum.splits outcome.splits)
  note l = lock_tail_level [OF t Cons.prems(2)]
  have "0 \<le> lines_cleared g1" "lines_cleared g1 < 10" by (simp_all add: l)
  from Cons.IH [OF r this] l
  have "level g' = level g + (lines_cleared g + int c) div 10
           + ((lines_cleared g + int c) mod 10 + int (sum_list cs)) div 10"
    and "lines_cleared g' = ((lines_cleared g + int c) mod 10 + int (sum_list cs)) mod 10"
    by simp_all
  then show ?case
    using div_carry [of "lines_cleared g + int c" "int (sum_list cs)"]
      mod_carry [of "lines_cleared g + int c" "int (sum_list cs)"]
    by (simp add: add.assoc)
qed

lemma locks_total:
  assumes "\<forall>c \<in> set cs. c \<le> 4" "0 \<le> level g" "0 \<le> lines_cleared g" "- LONG_MAX - 1 \<le> points g"
    and "1200 * (level g + (lines_cleared g + int (sum_list cs)) div 10) \<le> INT_MAX"
    and "points g + 1200 * (level g + (lines_cleared g + int (sum_list cs)) div 10) * int (length cs) \<le> LONG_MAX"
  shows "\<exists>g'. locks g cs = Inr (Continue g')"
  using assms
proof (induction cs arbitrary: g)
  case Nil
  then show ?case by simp
next
  case (Cons c cs)
  let ?L = "level g + (lines_cleared g + int (sum_list (c # cs))) div 10"
  have L0: "level g \<le> ?L" using Cons.prems(3) by (simp add: pos_imp_zdiv_nonneg_iff)
  have L1: "0 \<le> ?L" using L0 Cons.prems(2) by linarith
  have c4: "c \<le> 4" using Cons.prems(1) by simp
  have "\<exists>g1. score_lock g c = Inr (Continue g1) \<and> points g \<le> points g1 \<and> points g1 \<le> points g + 1200 * ?L"
  proof (cases "c = 0")
    case True
    with L1 show ?thesis by (simp add: score_lock_def)
  next
    case False
    define base :: int where "base = (if c = 1 then 40 else if c = 2 then 100 else if c = 3 then 300 else 1200)"
    have b: "0 \<le> base" "base \<le> 1200" by (simp_all add: base_def)
    have lo: "0 \<le> base * level g" using b Cons.prems(2) by simp
    have "base * level g \<le> 1200 * level g" using b Cons.prems(2) by (intro mult_right_mono)
    also have "\<dots> \<le> 1200 * ?L" using L0 by simp
    finally have hi: "base * level g \<le> 1200 * ?L" .
    have "1200 * ?L * int (length (c # cs)) = 1200 * ?L + 1200 * ?L * int (length cs)"
      by (simp add: algebra_simps)
    moreover have "0 \<le> 1200 * ?L * int (length cs)" using L1 by simp
    ultimately have "points g + 1200 * ?L \<le> LONG_MAX" using Cons.prems(6) by linarith
    with hi lo Cons.prems(4,5) False c4
    have "score_lock g c = Inr (Continue (g\<lparr>points := points g + base * level g,
                             lines_cleared := lines_cleared g + int c\<rparr>))"
      by (intro conjunct1 [OF score_lock_value [where base = base]]) (simp_all add: base_def)
    with hi lo show ?thesis by simp
  qed
  then obtain g1 where g1: "score_lock g c = Inr (Continue g1)" "points g \<le> points g1"
    "points g1 \<le> points g + 1200 * ?L" by blast
  let ?g2 = "update g1"
  have t: "lock_tail g c = Inr (Continue ?g2)" by (simp add: lock_tail_def g1(1))
  note l = lock_tail_level [OF t Cons.prems(3)]
  have p2: "points ?g2 = points g1"
    using score_lock_lines [OF g1(1)] Cons.prems(3) by (simp add: update_def level_loop_eq)
  have L2: "level ?g2 + (lines_cleared ?g2 + int (sum_list cs)) div 10 = ?L"
    using div_carry [of "lines_cleared g + int c" "int (sum_list cs)"] by (simp add: l add.assoc)
  have "\<exists>g'. locks ?g2 cs = Inr (Continue g')"
  proof (rule Cons.IH)
    show "\<forall>c \<in> set cs. c \<le> 4" using Cons.prems(1) by simp
    show "0 \<le> level ?g2" using lock_tail_mono [OF t] Cons.prems(2) by linarith
    show "0 \<le> lines_cleared ?g2" by (simp add: l)
    show "- LONG_MAX - 1 \<le> points ?g2" using p2 g1(2) Cons.prems(4) by linarith
    show "1200 * (level ?g2 + (lines_cleared ?g2 + int (sum_list cs)) div 10) \<le> INT_MAX"
      unfolding L2 using Cons.prems(5) .
    have "1200 * ?L * int (length (c # cs)) = 1200 * ?L + 1200 * ?L * int (length cs)"
      by (simp add: algebra_simps)
    with Cons.prems(6) g1(3) p2
    show "points ?g2 + 1200 * (level ?g2 + (lines_cleared ?g2 + int (sum_list cs)) div 10) * int (length cs) \<le> LONG_MAX"
      unfolding L2 by linarith
  qed
  with t show ?case by simp
qed

text \<open>
  Claim C7. From a state with level 1 and no counted lines (the state \<^verbatim>\<open>init\<close> sets up),
  after any sequence of locks whose clear-cycles returned \<open>cs\<close> the level is
  \<open>1 + n div 10\<close> for the cumulative total \<open>n = sum_list cs\<close>, however \<open>n\<close> is split over the
  locks, and \<^verbatim>\<open>lines_cleared\<close> is \<open>n mod 10\<close>. No lock lowers the level. The sequence of
  locks runs to its end when each lock clears at most four rows and the score stays
  within the range of \<^verbatim>\<open>long\<close>.
\<close>

theorem level_from_cleared_lines:
  assumes "level g = 1" and "lines_cleared g = 0"
  shows "(locks g cs = Inr (Continue g') \<longrightarrow>
            level g' = 1 + int (sum_list cs) div 10 \<and> lines_cleared g' = int (sum_list cs) mod 10)
       \<and> (lock_tail h c = Inr (Continue h') \<longrightarrow> level h \<le> level h')
       \<and> ((\<forall>c \<in> set cs. c \<le> 4) \<and> 0 \<le> points g
            \<and> 1200 * (1 + int (sum_list cs) div 10) \<le> INT_MAX
            \<and> points g + 1200 * (1 + int (sum_list cs) div 10) * int (length cs) \<le> LONG_MAX
          \<longrightarrow> (\<exists>g'. locks g cs = Inr (Continue g')))"
proof (intro conjI impI)
  assume "locks g cs = Inr (Continue g')"
  with locks_level [of g cs g'] assms
  show "level g' = 1 + int (sum_list cs) div 10" "lines_cleared g' = int (sum_list cs) mod 10"
    by simp_all
next
  assume "lock_tail h c = Inr (Continue h')"
  then show "level h \<le> level h'" by (rule lock_tail_mono)
next
  assume a: "(\<forall>c \<in> set cs. c \<le> 4) \<and> 0 \<le> points g
            \<and> 1200 * (1 + int (sum_list cs) div 10) \<le> INT_MAX
            \<and> points g + 1200 * (1 + int (sum_list cs) div 10) * int (length cs) \<le> LONG_MAX"
  show "\<exists>g'. locks g cs = Inr (Continue g')"
    using a assms by (intro locks_total) simp_all
qed

lemma locks_start:
  "locks start [4, 4, 1, 1, 0, 3, 4, 2, 4] =
     Inr (Continue (start\<lparr>level := 3, points := 8080, lines_cleared := 3\<rparr>))"
  unfolding start_eq by code_simp

theorem level_from_cleared_lines_witness:
  "level start = 1 \<and> lines_cleared start = 0
   \<and> list_all (\<lambda>c::nat. c \<le> 4) [4, 4, 1, 1, 0, 3, 4, 2, 4] \<and> 0 \<le> points start
   \<and> locks start [4, 4, 1, 1, 0, 3, 4, 2, 4] =
        Inr (Continue (start\<lparr>level := 3, points := 8080, lines_cleared := 3\<rparr>))
   \<and> level (start\<lparr>level := 3, points := 8080, lines_cleared := 3\<rparr>)
        = 1 + int (sum_list [4, 4, 1, 1, 0, 3, 4, 2, 4]) div 10"
  using level_from_cleared_lines [of start "[4, 4, 1, 1, 0, 3, 4, 2, 4]"
      "start\<lparr>level := 3, points := 8080, lines_cleared := 3\<rparr>"] locks_start
  by (simp add: start_eq)

subsection \<open>The row operations, cell by cell\<close>

lemma length_fold_update: "length (fold (\<lambda>x b. b[f x := g x b]) xs b) = length b"
  by (induction xs arbitrary: b) simp_all

lemma length_clear_row: "length (clear_row b i) = length b"
  by (simp add: clear_row_def length_fold_update)

lemma length_shift_row: "length (shift_row b y) = length b"
  by (simp add: shift_row_def length_fold_update)

lemma length_shift_down: "length (shift_down i b) = length b"
  by (induction i arbitrary: b) (simp_all add: length_shift_row)

lemma nth_fold_clear:
  "j < length b \<Longrightarrow>
   fold (\<lambda>x b. b[f x := 0]) xs b ! j = (if j \<in> f ` set xs then 0 else b ! j)"
  by (induction xs arbitrary: b) (auto simp: nth_list_update)

lemma in_row_iff:
  "(j \<in> (\<lambda>x. i * 12 + x) ` set [1..<11]) = (j div 12 = i \<and> 1 \<le> j mod 12 \<and> j mod 12 < (11::nat))"
proof
  assume "j \<in> (\<lambda>x. i * 12 + x) ` set [1..<11]"
  then obtain x where "x \<in> set [1..<11]" and j: "j = i * 12 + x" by blast
  then have "1 \<le> x" "x < 11" by simp_all
  with j show "j div 12 = i \<and> 1 \<le> j mod 12 \<and> j mod 12 < 11" by simp
next
  assume a: "j div 12 = i \<and> 1 \<le> j mod 12 \<and> j mod 12 < 11"
  then have "j = i * 12 + j mod 12" by (metis div_mult_mod_eq)
  with a show "j \<in> (\<lambda>x. i * 12 + x) ` set [1..<11]" by (intro image_eqI [where x = "j mod 12"]) simp_all
qed

lemma nth_clear_row:
  "j < length b \<Longrightarrow>
   clear_row b i ! j = (if j div 12 = i \<and> 1 \<le> j mod 12 \<and> j mod 12 < 11 then 0 else b ! j)"
  using nth_fold_clear [of j b "\<lambda>x. i * 12 + x" "[1..<11]"] in_row_iff [of j i]
  unfolding clear_row_def by simp

lemma nth_fold_shift:
  assumes "j < length b" "1 \<le> y" "\<forall>x \<in> set xs. x < 12"
  shows "fold (\<lambda>x b. b[y * 12 + x := b ! ((y - 1) * 12 + x)]) xs b ! j
         = (if j \<in> (\<lambda>x. y * 12 + x) ` set xs then b ! (j - 12) else b ! j)"
  using assms
proof (induction xs arbitrary: b)
  case Nil
  then show ?case by simp
next
  case (Cons x xs)
  let ?b1 = "b[y * 12 + x := b ! ((y - 1) * 12 + x)]"
  have x: "x < 12" using Cons.prems by simp
  have src: "(y - 1) * 12 + x = y * 12 + x - 12" using \<open>1 \<le> y\<close> by (simp add: algebra_simps)
  have IH: "fold (\<lambda>x b. b[y * 12 + x := b ! ((y - 1) * 12 + x)]) xs ?b1 ! j
         = (if j \<in> (\<lambda>x. y * 12 + x) ` set xs then ?b1 ! (j - 12) else ?b1 ! j)"
    using Cons.prems by (intro Cons.IH) simp_all
  show ?case
  proof (cases "j \<in> (\<lambda>x. y * 12 + x) ` set xs")
    case True
    then obtain x' where x': "j = y * 12 + x'" "x' \<in> set xs" by auto
    then have "x' < 12" using Cons.prems by simp
    with x' x \<open>1 \<le> y\<close> have "j - 12 \<noteq> y * 12 + x" by (simp add: algebra_simps) 
    with True IH show ?thesis by simp
  next
    case False
    with IH Cons.prems(1) src show ?thesis by (auto simp: nth_list_update)
  qed
qed

lemma nth_shift_row:
  "j < length b \<Longrightarrow> 1 \<le> y \<Longrightarrow>
   shift_row b y ! j = (if j div 12 = y \<and> 1 \<le> j mod 12 \<and> j mod 12 < 11 then b ! (j - 12) else b ! j)"
  using nth_fold_shift [of j b y "[1..<11]"] in_row_iff [of j y]
  unfolding shift_row_def by simp

lemma row_above: "12 \<le> j \<Longrightarrow> (j - 12) div 12 = j div 12 - 1 \<and> (j - 12) mod 12 = j mod (12::nat)"
  by (simp add: le_div_geq le_mod_geq)

lemma nth_shift_down:
  "j < length b \<Longrightarrow>
   shift_down i b ! j =
     (if 1 \<le> j div 12 \<and> j div 12 \<le> i \<and> 1 \<le> j mod 12 \<and> j mod 12 < 11 then b ! (j - 12) else b ! j)"
proof (induction i arbitrary: b)
  case 0
  then show ?case by simp
next
  case (Suc y)
  let ?b1 = "shift_row b (Suc y)"
  have len: "j < length ?b1" using Suc.prems by (simp add: length_shift_row)
  note IH = Suc.IH [OF len]
  show ?case
  proof (cases "1 \<le> j div 12 \<and> j div 12 \<le> y \<and> 1 \<le> j mod 12 \<and> j mod 12 < 11")
    case True
    then have "12 \<le> j" by (simp add: less_eq_div_iff_mult_less_eq)
    from row_above [OF this] True have "(j - 12) div 12 \<noteq> Suc y" by linarith
    moreover have "j - 12 < length b" using Suc.prems by simp
    ultimately have "?b1 ! (j - 12) = b ! (j - 12)" by (simp add: nth_shift_row)
    with True IH show ?thesis by simp
  next
    case False
    with IH Suc.prems show ?thesis by (auto simp: nth_shift_row)
  qed
qed

lemma nth_clear_and_shift:
  assumes "j < length b" "1 \<le> i"
  shows "clear_and_shift b i ! j =
     (if 1 \<le> j div 12 \<and> j div 12 \<le> i \<and> 1 \<le> j mod 12 \<and> j mod 12 < 11 then b ! (j - 12) else b ! j)"
proof (cases "1 \<le> j div 12 \<and> j div 12 \<le> i \<and> 1 \<le> j mod 12 \<and> j mod 12 < 11")
  case True
  then have "12 \<le> j" by (simp add: less_eq_div_iff_mult_less_eq)
  from row_above [OF this] True have "(j - 12) div 12 \<noteq> i" by linarith
  moreover have "j - 12 < length b" using assms by simp
  ultimately have "clear_row b i ! (j - 12) = b ! (j - 12)" by (simp add: nth_clear_row)
  with True assms show ?thesis by (simp add: clear_and_shift_def nth_shift_down length_clear_row)
next
  case False
  with assms show ?thesis
    by (auto simp: clear_and_shift_def nth_shift_down length_clear_row nth_clear_row)
qed

lemma length_clear_and_shift: "length (clear_and_shift b i) = length b"
  by (simp add: clear_and_shift_def length_shift_down length_clear_row)

lemma cols: "[Suc 0..<11] = [1, 2, 3, 4, 5, 6, 7, 8, 9, 10]"
  by (simp add: upt_rec)

lemma row_full_iff: "row_full b i \<longleftrightarrow> (\<forall>x. 1 \<le> x \<and> x < 11 \<longrightarrow> b ! (i * 12 + x) \<noteq> 0)"
  by (auto simp: row_full_def list_all_iff)


lemma not_full_cell: "1 \<le> x \<Longrightarrow> x < 11 \<Longrightarrow> b ! (r * 12 + x) = 0 \<Longrightarrow> \<not> row_full b r"
  by (auto simp: row_full_iff)

subsection \<open>Row 0 under clear and shift\<close>






subsection \<open>The border\<close>

lemma border_okI:
  "length b = B_SIZE \<Longrightarrow> (\<And>j. j < B_SIZE \<Longrightarrow> \<not> playing j \<Longrightarrow> b ! j = 60) \<Longrightarrow> border_ok b"
  by (auto simp: border_ok_def list_all_upt)

lemma border_okD:
  "border_ok b \<Longrightarrow> j < B_SIZE \<Longrightarrow> \<not> playing j \<Longrightarrow> b ! j = 60"
  by (auto simp: border_ok_def list_all_upt)

lemma border_ok_length: "border_ok b \<Longrightarrow> length b = B_SIZE"
  by (simp add: border_ok_def)

lemma border_ok_init: "border_ok init_board"
  by (rule border_okI) (simp_all add: length_init_board init_board_cells)

lemma border_ok_update:
  assumes "border_ok b" "playing p"
  shows "border_ok (b[p := c])"
proof (rule border_okI)
  show "length (b[p := c]) = B_SIZE" using assms by (simp add: border_ok_length)
  fix j assume "j < B_SIZE" "\<not> playing j"
  with assms show "b[p := c] ! j = 60"
    by (cases "j = p") (auto simp: border_okD)
qed

lemma border_ok_clear_row:
  assumes "border_ok b" "i < B_ROWS - 2"
  shows "border_ok (clear_row b i)"
proof (rule border_okI)
  show "length (clear_row b i) = B_SIZE" using assms by (simp add: length_clear_row border_ok_length)
  fix j assume j: "j < B_SIZE" "\<not> playing j"
  with assms have "clear_row b i ! j = b ! j"
    by (auto simp: nth_clear_row border_ok_length playing_def)
  with j assms show "clear_row b i ! j = 60" by (simp add: border_okD)
qed

lemma border_ok_shift_down:
  assumes "border_ok b" "i < B_ROWS - 2"
  shows "border_ok (shift_down i b)"
proof (rule border_okI)
  show "length (shift_down i b) = B_SIZE" using assms by (simp add: length_shift_down border_ok_length)
  fix j assume j: "j < B_SIZE" "\<not> playing j"
  with assms have "shift_down i b ! j = b ! j"
    by (auto simp: nth_shift_down border_ok_length playing_def)
  with j assms show "shift_down i b ! j = 60" by (simp add: border_okD)
qed

lemma border_ok_clear_and_shift:
  "border_ok b \<Longrightarrow> i < B_ROWS - 2 \<Longrightarrow> border_ok (clear_and_shift b i)"
  by (simp add: clear_and_shift_def border_ok_clear_row border_ok_shift_down)

lemma nth_upd: "xs[p := v] ! j = (if p = j \<and> j < length xs then v else xs ! j)"
proof (cases "p < length xs")
  case True
  then show ?thesis by (auto simp: nth_list_update)
next
  case False
  then show ?thesis by (auto simp: list_update_beyond)
qed

lemma place_in_board:
  assumes "list_all in_board (cells k a)"
  shows "place b k a c =
     Inr (b[nat a := c, nat (a + field k 1) := c, nat (a + field k 2) := c, nat (a + field k 3) := c])"
  using assms by (simp add: place_def store_def cells_def in_board_def)

lemma free_cell_playing:
  assumes "border_ok b" "in_board p" "b ! nat p = 0"
  shows "playing (nat p)"
proof (rule ccontr)
  assume "\<not> playing (nat p)"
  moreover have "nat p < B_SIZE" using assms(2) by (rule in_board_nat)
  ultimately have "b ! nat p = 60" using assms(1) by (simp add: border_okD)
  with assms(3) show False by simp
qed

lemma border_ok_place:
  assumes "border_ok b" "fits_in b k a = Inr True"
  shows "\<exists>b'. place b k a c = Inr b' \<and> border_ok b'"
proof -
  from assms(2) have i: "list_all in_board (cells k a)"
    and z: "list_all (\<lambda>p. b ! nat p = 0) (cells k a)"
    by (simp_all add: fits_in_True_iff)
  from i z assms(1) have "list_all (\<lambda>p. playing (nat p)) (cells k a)"
    by (auto simp: list_all_iff intro: free_cell_playing)
  then show ?thesis
    using assms(1) by (simp add: place_in_board [OF i] cells_def border_ok_update)
qed

lemma place_erase:
  assumes "length b = B_SIZE" "fits_in b k a = Inr True" "place b k a c = Inr b'"
  shows "place b' k a 0 = Inr b"
proof -
  from assms(2) have i: "list_all in_board (cells k a)"
    and z: "list_all (\<lambda>p. b ! nat p = 0) (cells k a)"
    by (simp_all add: fits_in_True_iff)
  from assms(3) have b': "b' = b[nat a := c, nat (a + field k 1) := c, nat (a + field k 2) := c, nat (a + field k 3) := c]"
    by (simp add: place_in_board [OF i])
  have "b'[nat a := 0, nat (a + field k 1) := 0, nat (a + field k 2) := 0, nat (a + field k 3) := 0] = b"
    using z unfolding b' by (intro nth_equalityI) (auto simp: cells_def nth_upd)
  then show ?thesis by (simp add: place_in_board [OF i])
qed

text \<open>
  Claim C3, as the code has it. The initialisation writes the border tag 60 to the
  leftmost column, the rightmost column and the two bottom rows, and 0 to every other
  cell: the top row has no border cells apart from its two ends. These border cells keep
  the tag under every operation on the board: placing a piece where \<open>fits_in\<close> has
  returned 1 (with any colour, and erasing it again gives the board back), clearing a
  row of the scan and shifting the rows above it.
\<close>

theorem border_preserved:
  "(\<forall>j < B_SIZE. init_board ! j = (if playing j then 0 else 60))
   \<and> border_ok init_board
   \<and> (border_ok b \<and> fits_in b k a = Inr True \<longrightarrow>
        (\<exists>b'. place b k a c = Inr b' \<and> border_ok b' \<and> place b' k a 0 = Inr b))
   \<and> (border_ok b \<and> i < B_ROWS - 2 \<longrightarrow>
        border_ok (clear_row b i) \<and> border_ok (shift_down i b) \<and> border_ok (clear_and_shift b i))"
proof (intro conjI impI allI)
  show "init_board ! j = (if playing j then 0 else 60)" if "j < B_SIZE" for j
    using that by (rule init_board_cells)
  show "border_ok init_board" by (rule border_ok_init)
next
  assume a: "border_ok b \<and> fits_in b k a = Inr True"
  then obtain b' where b': "place b k a c = Inr b'" "border_ok b'"
    using border_ok_place by blast
  moreover from a b' have "place b' k a 0 = Inr b"
    by (intro place_erase [where c = c]) (simp_all add: border_ok_length)
  ultimately show "\<exists>b'. place b k a c = Inr b' \<and> border_ok b' \<and> place b' k a 0 = Inr b"
    by blast
next
  assume a: "border_ok b \<and> i < B_ROWS - 2"
  then show "border_ok (clear_row b i)" "border_ok (shift_down i b)"
    "border_ok (clear_and_shift b i)"
    by (simp_all add: border_ok_clear_row border_ok_shift_down border_ok_clear_and_shift)
qed

theorem border_preserved_witness:
  "border_ok init_board \<and> fits_in init_board 6 17 = Inr True
   \<and> place init_board 6 17 7 = Inr (init_board[17 := 7, 16 := 7, 18 := 7, 19 := 7])
   \<and> border_ok (init_board[17 := 7, 16 := 7, 18 := 7, 19 := 7])
   \<and> place (init_board[17 := 7, 16 := 7, 18 := 7, 19 := 7]) 6 17 0 = Inr init_board
   \<and> border_ok (clear_and_shift init_board 20)"
proof -
  have f: "fits_in init_board 6 17 = Inr True"
    by (simp add: fits_in_def cell_def field_def shapes_def nth_init_board)
  have p: "place init_board 6 17 7 = Inr (init_board[17 := 7, 16 := 7, 18 := 7, 19 := 7])"
    by (simp add: place_def store_def field_def shapes_def)
  from border_preserved [of init_board 6 17 7 20] f p show ?thesis by simp
qed

text \<open>
  Claim C3 as stated fails. After the initialisation the cell in row 0, column 1 lies on the outermost ring and is
  empty: the ring as a whole does not hold the border tag.
\<close>

theorem ring_not_tagged_counterexample:
  "ring 1 \<and> init_board ! 1 = 0 \<and> \<not> ring_tagged init_board"
proof -
  have r: "ring 1" by (simp add: ring_def)
  have z: "init_board ! 1 = 0" by (simp add: nth_init_board)
  have "\<not> ring_tagged init_board"
  proof
    assume "ring_tagged init_board"
    then have "ring 1 \<longrightarrow> init_board ! 1 = 60"
      by (simp add: ring_tagged_def list_all_upt)
    with r z show False by simp
  qed
  with r z show ?thesis by simp
qed

subsection \<open>The border as the bounds check\<close>

lemma ring_taggedD: "ring_tagged b \<Longrightarrow> j < B_SIZE \<Longrightarrow> ring j \<Longrightarrow> b ! j = 60"
  by (auto simp: ring_tagged_def list_all_upt)

lemma not_ring_bounds:
  assumes "n < B_SIZE" "\<not> ring n"
  shows "13 \<le> n \<and> n \<le> 262 \<and> (n \<le> 250 \<or> 253 \<le> n)"
proof -
  have j: "n = 12 * (n div 12) + n mod 12" by simp
  have m: "n mod 12 < 12" by simp
  from assms(2) have "1 \<le> n div 12" "n div 12 \<noteq> 22" "1 \<le> n mod 12" "n mod 12 \<noteq> 11"
    by (simp_all add: ring_def)
  moreover have "n div 12 < 23" using assms(1) by simp
  ultimately have c: "1 \<le> n div 12" "n div 12 \<le> 21" "1 \<le> n mod 12" "n mod 12 \<le> 10"
    using m by linarith+
  show ?thesis
  proof (cases "n div 12 \<le> 20")
    case True
    with c j show ?thesis by linarith
  next
    case False
    with c have "n div 12 = 21" by linarith
    with c j show ?thesis by linarith
  qed
qed

lemma ring_row22: "264 \<le> n \<Longrightarrow> n < B_SIZE \<Longrightarrow> ring n"
proof -
  assume "264 \<le> n" "n < B_SIZE"
  then have "n div 12 = 22" by simp
  then show ?thesis by (simp add: ring_def)
qed

lemma playing_bounds:
  assumes "playing n" "12 \<le> n"
  shows "13 \<le> n \<and> n \<le> 250"
proof -
  have j: "n = 12 * (n div 12) + n mod 12" by simp
  from assms(1) have "n div 12 \<le> 20" "1 \<le> n mod 12" "n mod 12 \<le> 10"
    by (simp_all add: playing_def)
  moreover from assms(2) have "1 \<le> n div 12" by simp
  ultimately show ?thesis using j by linarith
qed

lemma border_rejects_below_top:
  assumes "border_ok b" "k < 19" "in_board a" "12 \<le> a"
    and "\<exists>p \<in> set (cells k a). \<not> in_board p \<or> \<not> playing (nat p)"
  shows "fits_in b k a = Inr False"
proof -
  have tagged: "b ! nat q \<noteq> 0" if "in_board q" "\<not> playing (nat q)" for q
    using border_okD [OF assms(1) in_board_nat [OF that(1)] that(2)] by simp
  show ?thesis
  proof (cases "playing (nat a)")
    case False
    with assms(3) show ?thesis by (intro fits_in_anchor_occupied tagged)
  next
    case True
    from assms(4) have "12 \<le> nat a" by linarith
    from playing_bounds [OF True this] have "13 \<le> a" "a \<le> 250" by linarith+
    with assms(2) have i: "list_all in_board (cells k a)" by (intro inner_cells_in_board)
    from assms(5) obtain p where p: "p \<in> set (cells k a)" "\<not> in_board p \<or> \<not> playing (nat p)"
      by blast
    with i have "in_board p" "\<not> playing (nat p)" by (auto simp: list_all_iff)
    then have "b ! nat p \<noteq> 0" by (rule tagged)
    with i p(1) show ?thesis by (rule fits_in_cell_occupied)
  qed
qed

lemma border_rejects_ring:
  "(k < 19 \<and> 1 \<le> r \<and> r \<le> B_ROWS - 3 \<and> 1 \<le> x \<and> x \<le> B_COLS - 2 \<longrightarrow>
      list_all in_board (cells k (int (r * B_COLS + x))))
   \<and> (ring_tagged b \<and> k < 19 \<and> in_board a
        \<and> (\<exists>p \<in> set (cells k a). \<not> in_board p \<or> ring (nat p)) \<longrightarrow>
      fits_in b k a = Inr False)"
proof (intro conjI impI)
  assume h: "k < 19 \<and> 1 \<le> r \<and> r \<le> B_ROWS - 3 \<and> 1 \<le> x \<and> x \<le> B_COLS - 2"
  then have "13 \<le> r * 12 + x" "r * 12 + x \<le> 250" by simp_all
  with h show "list_all in_board (cells k (int (r * B_COLS + x)))"
    by (intro inner_cells_in_board) simp_all
next
  assume h: "ring_tagged b \<and> k < 19 \<and> in_board a
        \<and> (\<exists>p \<in> set (cells k a). \<not> in_board p \<or> ring (nat p))"
  then have t: "ring_tagged b" and k: "k < 19" and a: "in_board a" by simp_all
  from h obtain p where p: "p \<in> set (cells k a)" "\<not> in_board p \<or> ring (nat p)" by blast
  have tagged: "b ! nat q \<noteq> 0" if "in_board q" "ring (nat q)" for q
    using ring_taggedD [OF t in_board_nat [OF that(1)] that(2)] by simp
  show "fits_in b k a = Inr False"
  proof (cases "ring (nat a)")
    case True
    with a show ?thesis by (intro fits_in_anchor_occupied tagged)
  next
    case False
    from not_ring_bounds [OF in_board_nat [OF a] False] a
    have lo: "13 \<le> a" and hi: "a \<le> 250 \<or> (253 \<le> a \<and> a \<le> 262)"
      by (auto simp: in_board_def)
    from hi show ?thesis
    proof
      assume "a \<le> 250"
      with k lo have i: "list_all in_board (cells k a)" by (intro inner_cells_in_board)
      with p have "in_board p" "ring (nat p)" by (auto simp: list_all_iff)
      then have "b ! nat p \<noteq> 0" by (rule tagged)
      with i p(1) show ?thesis by (rule fits_in_cell_occupied)
    next
      assume r21: "253 \<le> a \<and> a \<le> 262"
      show ?thesis
      proof (cases "k = 18")
        case True
        have i1: "in_board (a + field k 1)" and i2: "in_board (a + field k 2)"
          using r21 field_18 by (simp_all add: True in_board_def)
        have "ring (nat (a + field k 2))"
        proof (rule ring_row22)
          show "264 \<le> nat (a + field k 2)" "nat (a + field k 2) < B_SIZE"
            using r21 field_18 unfolding True by linarith+
        qed
        with i2 have "b ! nat (a + field k 2) \<noteq> 0" by (rule tagged)
        with a i1 i2 show ?thesis
          by (simp add: fits_in_def cell_def in_board_def)
      next
        case False
        with k have "k < 18" by simp
        from field3_small [OF this] field_bounds [OF k] r21
        have i: "list_all in_board (cells k a)"
          by (simp add: cells_def in_board_def)
        with p have "in_board p" "ring (nat p)" by (auto simp: list_all_iff)
        then have "b ! nat p \<noteq> 0" by (rule tagged)
        with i p(1) show ?thesis by (rule fits_in_cell_occupied)
      qed
    qed
  qed
qed

text \<open>
  Claim C2. For each of the nineteen catalog shapes and every anchor in rows
  \<open>1 .. B_ROWS - 3\<close> and columns \<open>1 .. B_COLS - 2\<close> the four absolute cells are indices of
  the array. On a board whose outermost ring holds the border tag, \<open>fits_in\<close> returns 0
  for every shape and every anchor on the board such that one of the four cells lies on
  the ring or beyond the array. It does so by reading an occupied cell: the read of a
  cell beyond the array is never reached, because an occupied cell comes before it.
  The same holds of the border that the initialisation writes (the two side columns and
  the two bottom rows), for every anchor below row 0.
\<close>

theorem border_rejects:
  "(k < 19 \<and> 1 \<le> r \<and> r \<le> B_ROWS - 3 \<and> 1 \<le> x \<and> x \<le> B_COLS - 2 \<longrightarrow>
      list_all in_board (cells k (int (r * B_COLS + x))))
   \<and> (ring_tagged b \<and> k < 19 \<and> in_board a
        \<and> (\<exists>p \<in> set (cells k a). \<not> in_board p \<or> ring (nat p)) \<longrightarrow>
      fits_in b k a = Inr False)
   \<and> (border_ok b \<and> k < 19 \<and> in_board a \<and> int B_COLS \<le> a
        \<and> (\<exists>p \<in> set (cells k a). \<not> in_board p \<or> \<not> playing (nat p)) \<longrightarrow>
      fits_in b k a = Inr False)"
  using border_rejects_ring [of k r x b a] border_rejects_below_top [of b k a] by simp

theorem border_rejects_witness:
  "ring_tagged ringed_board \<and> list_all in_board (cells 18 250) \<and> ring (nat 274)
   \<and> fits_in ringed_board 18 250 = Inr False
   \<and> \<not> in_board 281 \<and> fits_in ringed_board 18 257 = Inr False
   \<and> border_ok init_board \<and> \<not> playing (nat 274) \<and> fits_in init_board 18 250 = Inr False"
proof -
  have t: "ring_tagged ringed_board"
    by (simp add: ring_tagged_def ringed_board_def list_all_upt)
  have c: "cells 18 250 = [250, 238, 262, 274]" "cells 18 257 = [257, 245, 269, 281]"
    by (simp_all add: cells_def field_def shapes_def)
  have r: "ring (nat 274)" "\<not> playing (nat 274)" by (simp_all add: ring_def playing_def)
  have o: "\<not> in_board 281" "in_board 250" "in_board 257" by (simp_all add: in_board_def)
  from border_rejects [of 18 20 10 ringed_board 250]
    border_rejects [of 18 20 10 ringed_board 257]
    border_rejects [of 18 20 10 init_board 250]
  show ?thesis using t r o border_ok_init by (simp add: c)
qed

subsection \<open>The clear-cycle\<close>

lemma length_rows: "length (rows b) = 21"
  by (simp add: rows_def)

lemma nth_rows: "r < 21 \<Longrightarrow> rows b ! r = row_cells b r"
  by (simp add: rows_def)

lemma row_full_cells: "row_full b r = full_cells (row_cells b r)"
  by (simp add: row_full_def full_cells_def row_cells_def list_all_iff)

lemma row_full_rows: "r < 21 \<Longrightarrow> row_full b r = full_cells (rows b ! r)"
  by (simp add: row_full_cells nth_rows)

lemma row_cells_step:
  assumes "length b = B_SIZE" "1 \<le> i" "n < 23"
  shows "row_cells (clear_and_shift b i) n =
           (if 1 \<le> n \<and> n \<le> i then row_cells b (n - 1) else row_cells b n)"
proof -
  have "clear_and_shift b i ! (n * 12 + x) =
          (if 1 \<le> n \<and> n \<le> i then b ! ((n - 1) * 12 + x) else b ! (n * 12 + x))"
    if "x \<in> set [1..<11]" for x
  proof -
    from that have x: "1 \<le> x" "x < 11" by simp_all
    then have "n * 12 + x < length b" using assms by simp
    moreover have "(n * 12 + x) div 12 = n" "(n * 12 + x) mod 12 = x" using x by simp_all
    moreover have "n * 12 + x - 12 = (n - 1) * 12 + x" if "1 \<le> n" using that by (simp add: algebra_simps)
    ultimately show ?thesis using x assms(2) by (simp add: nth_clear_and_shift)
  qed
  then show ?thesis by (auto simp: row_cells_def)
qed

lemma rows_step:
  assumes "length b = B_SIZE" "1 \<le> i" "i < 21"
  shows "rows (clear_and_shift b i) = rows b ! 0 # take i (rows b) @ drop (Suc i) (rows b)"
proof (rule nth_equalityI)
  show "length (rows (clear_and_shift b i)) = length (rows b ! 0 # take i (rows b) @ drop (Suc i) (rows b))"
    using assms by (simp add: length_rows)
next
  fix n assume "n < length (rows (clear_and_shift b i))"
  then have n: "n < 21" by (simp add: length_rows)
  show "rows (clear_and_shift b i) ! n = (rows b ! 0 # take i (rows b) @ drop (Suc i) (rows b)) ! n"
  proof (cases "n = 0")
    case True
    with assms show ?thesis by (simp add: nth_rows row_cells_step)
  next
    case False
    then obtain m where m: "n = Suc m" by (cases n) auto
    show ?thesis
    proof (cases "n \<le> i")
      case True
      with m n assms show ?thesis
        by (simp add: nth_rows row_cells_step nth_append length_rows)
    next
      case False
      with m n assms show ?thesis
        by (simp add: nth_rows row_cells_step nth_append length_rows)
    qed
  qed
qed

lemma step_frame:
  assumes "length b = B_SIZE" "1 \<le> i" "i < 21" "j < B_SIZE" "\<not> playing j"
  shows "clear_and_shift b i ! j = b ! j"
  using assms by (auto simp: nth_clear_and_shift playing_def)

lemma nth_row_cells:
  assumes "1 \<le> x" "x < 11"
  shows "row_cells b r ! (x - 1) = b ! (r * 12 + x)"
proof -
  have "Suc 0 + (x - Suc 0) < 11" using assms by linarith
  then have "[Suc 0..<11] ! (x - Suc 0) = Suc 0 + (x - Suc 0)" by (rule nth_upt)
  with assms show ?thesis by (simp add: row_cells_def)
qed

lemma board_rebuild:
  assumes "length b' = B_SIZE" "\<And>j. j < B_SIZE \<Longrightarrow> \<not> playing j \<Longrightarrow> b' ! j = b ! j"
  shows "b' = with_rows b (rows b')"
proof (rule nth_equalityI)
  show "length b' = length (with_rows b (rows b'))" using assms(1) by (simp add: with_rows_def)
next
  fix j assume "j < length b'"
  then have j: "j < B_SIZE" using assms(1) by simp
  show "b' ! j = with_rows b (rows b') ! j"
  proof (cases "playing j")
    case False
    with j assms(2) show ?thesis by (simp add: with_rows_def)
  next
    case True
    then have r: "j div 12 < 21" and x: "1 \<le> j mod 12" "j mod 12 < 11"
      by (simp_all add: playing_def)
    from x have "row_cells b' (j div 12) ! (j mod 12 - 1) = b' ! (j div 12 * 12 + j mod 12)"
      by (rule nth_row_cells)
    with True j r show ?thesis by (simp add: with_rows_def nth_rows)
  qed
qed

lemma drop_step:
  assumes "1 \<le> i" "i < length rs"
  shows "drop i (rs ! 0 # take i rs @ drop (Suc i) rs) = rs ! (i - 1) # drop (Suc i) rs"
proof -
  from assms obtain m where m: "i = Suc m" by (cases i) auto
  have "drop m (take (Suc m) rs) = [rs ! m]"
    using assms m by (simp add: take_Suc_conv_app_nth)
  with assms m show ?thesis by simp
qed

lemma take_step:
  assumes "1 \<le> i" "i < length rs"
  shows "take i (rs ! 0 # take i rs @ drop (Suc i) rs) = rs ! 0 # take (i - 1) rs"
proof -
  from assms obtain m where m: "i = Suc m" by (cases i) auto
  with assms show ?thesis by (simp add: min_def)
qed

lemma nth_step:
  assumes "1 \<le> i" "i < length rs" "r < i"
  shows "(rs ! 0 # take i rs @ drop (Suc i) rs) ! r = rs ! (r - 1)"
  using assms by (cases r) (simp_all add: nth_append)

lemma shape_step:
  assumes "1 \<le> i" "i < length rs" "F (rs ! i)" "\<not> F (rs ! (i - 1))"
  shows "replicate k (rs ! 0) @ (rs ! 0 # take (i - 1) rs)
            @ filter (\<lambda>r. \<not> F r) (rs ! (i - 1) # drop (Suc i) rs)
         = replicate (Suc k) (rs ! 0) @ take i rs @ filter (\<lambda>r. \<not> F r) (drop i rs)"
proof -
  from assms obtain m where m: "i = Suc m" by (cases i) auto
  have d: "drop i rs = rs ! i # drop (Suc i) rs"
    using assms(2) by (simp add: Cons_nth_drop_Suc)
  have t: "take i rs = take m rs @ [rs ! m]"
    using assms(2) m by (simp add: take_Suc_conv_app_nth)
  have "replicate k (rs ! 0) @ [rs ! 0] = replicate (Suc k) (rs ! 0)"
    by (simp add: replicate_append_same)
  then have "replicate k (rs ! 0) @ (rs ! 0 # xs) = replicate (Suc k) (rs ! 0) @ xs" for xs
    by (metis append.assoc append_Cons append_Nil)
  with assms(3,4) show ?thesis unfolding d t by (simp add: m)
qed

lemma count_step:
  assumes "1 \<le> i" "i < length rs" "F (rs ! i)" "\<not> F (rs ! (i - 1))"
  shows "Suc (length (filter F (rs ! (i - 1) # drop (Suc i) rs))) = length (filter F (drop i rs))"
proof -
  have d: "drop i rs = rs ! i # drop (Suc i) rs"
    using assms(2) by (simp add: Cons_nth_drop_Suc)
  show ?thesis using assms(3,4) unfolding d by simp
qed

lemma shape_advance:
  assumes "i < length rs" "\<not> F (rs ! i)"
  shows "take (Suc i) rs @ filter (\<lambda>r. \<not> F r) (drop (Suc i) rs)
         = take i rs @ filter (\<lambda>r. \<not> F r) (drop i rs)"
    and "length (filter F (drop (Suc i) rs)) = length (filter F (drop i rs))"
proof -
  have d: "drop i rs = rs ! i # drop (Suc i) rs"
    using assms(1) by (simp add: Cons_nth_drop_Suc)
  show "take (Suc i) rs @ filter (\<lambda>r. \<not> F r) (drop (Suc i) rs)
         = take i rs @ filter (\<lambda>r. \<not> F r) (drop i rs)"
    using assms unfolding d by (simp add: take_Suc_conv_app_nth)
  show "length (filter F (drop (Suc i) rs)) = length (filter F (drop i rs))"
    using assms unfolding d by simp
qed

lemma board_level_loop: "board (level_loop g) = board g"
proof (induction g rule: level_loop.induct)
  case (1 g)
  then show ?case by (cases "lines_cleared g \<ge> 10") (simp_all add: level_loop.simps [of g])
qed

lemma board_update: "board (update g) = board g"
  by (simp add: update_def board_level_loop)

lemma update_id: "lines_cleared g < 10 \<Longrightarrow> update g = g"
  by (simp add: update_def level_loop.simps [of g])

lemma board_clear_at: "board (clear_at g i) = clear_and_shift (board g) i"
  by (simp add: clear_at_def Let_def board_update clear_and_shift_def)

lemma clear_at_id:
  "lines_cleared g < 10 \<Longrightarrow> clear_at g i = g\<lparr>board := clear_and_shift (board g) i\<rparr>"
  by (simp add: clear_at_def Let_def update_id clear_and_shift_def)

lemma scan_rows_full:
  "i < 21 \<Longrightarrow> row_full (board g) i \<Longrightarrow> scan_rows g i c = scan_rows (clear_at g i) i (c + 1)"
  by (subst scan_rows.simps) simp

lemma scan_rows_not_full:
  "i < 21 \<Longrightarrow> \<not> row_full (board g) i \<Longrightarrow> scan_rows g i c = scan_rows g (i + 1) c"
  by (subst scan_rows.simps) simp

lemma scan_rows_end: "\<not> i < 21 \<Longrightarrow> scan_rows g i c = Some (g, c)"
  by (subst scan_rows.simps) simp

lemma scan_skip:
  "i \<le> 21 \<Longrightarrow> (\<forall>r. i \<le> r \<and> r < 21 \<longrightarrow> \<not> row_full (board g) r) \<Longrightarrow> scan_rows g i c = Some (g, c)"
proof (induction "21 - i" arbitrary: i)
  case 0
  then show ?case by (simp add: scan_rows_end)
next
  case (Suc n)
  then have "i < 21" "\<not> row_full (board g) i" by simp_all
  moreover have "scan_rows g (i + 1) c = Some (g, c)"
    using Suc.prems Suc.hyps(2) by (intro Suc.hyps(1)) simp_all
  ultimately show ?case by (simp add: scan_rows_not_full)
qed

lemma scan_rows_result:
  assumes "length (board g) = B_SIZE" "1 \<le> i" "i \<le> 21" "\<forall>r<i. \<not> row_full (board g) r"
  shows "\<exists>g'. scan_rows g i c = Some (g', c + length (filter full_cells (drop i (rows (board g)))))
            \<and> length (board g') = B_SIZE
            \<and> rows (board g') =
                replicate (length (filter full_cells (drop i (rows (board g))))) (rows (board g) ! 0)
                @ take i (rows (board g))
                @ filter (\<lambda>r. \<not> full_cells r) (drop i (rows (board g)))
            \<and> (\<forall>j<B_SIZE. \<not> playing j \<longrightarrow> board g' ! j = board g ! j)
            \<and> (lines_cleared g < 10 \<longrightarrow> g' = g\<lparr>board := board g'\<rparr>)"
  using assms
proof (induction "(21 - i) + length (filter full_cells (drop i (rows (board g))))"
    arbitrary: g i c rule: less_induct)
  case less
  let ?rs = "rows (board g)"
  show ?case
  proof (cases "i < 21")
    case False
    with less.prems have "i = 21" by simp
    then show ?thesis by (simp add: scan_rows_end less.prems(1) length_rows)
  next
    case i21: True
    then have il: "i < length ?rs" by (simp add: length_rows)
    show ?thesis
    proof (cases "row_full (board g) i")
      case True
      let ?g2 = "clear_at g i"
      let ?rs1 = "rows (board ?g2)"
      have F: "full_cells (?rs ! i)" using True i21 by (simp add: row_full_rows)
      have nF: "\<not> full_cells (?rs ! (i - 1))"
        using less.prems(2,4) i21 by (simp add: row_full_rows)
      have rs1: "?rs1 = ?rs ! 0 # take i ?rs @ drop (Suc i) ?rs"
        using less.prems(1,2) i21 by (simp add: board_clear_at rows_step)
      have len2: "length (board ?g2) = B_SIZE"
        by (simp add: board_clear_at length_clear_and_shift less.prems(1))
      have nf2: "\<forall>r<i. \<not> row_full (board ?g2) r"
      proof (intro allI impI)
        fix r assume r: "r < i"
        then have "?rs1 ! r = ?rs ! (r - 1)"
          unfolding rs1 using less.prems(2) il by (intro nth_step)
        moreover have "\<not> full_cells (?rs ! (r - 1))"
          using less.prems(4) r i21 by (simp add: row_full_rows)
        ultimately show "\<not> row_full (board ?g2) r"
          using r i21 by (simp add: row_full_rows)
      qed
      have d1: "drop i ?rs1 = ?rs ! (i - 1) # drop (Suc i) ?rs"
        unfolding rs1 using less.prems(2) il by (rule drop_step)
      have t1: "take i ?rs1 = ?rs ! 0 # take (i - 1) ?rs"
        unfolding rs1 using less.prems(2) il by (rule take_step)
      have cnt: "Suc (length (filter full_cells (drop i ?rs1))) = length (filter full_cells (drop i ?rs))"
        unfolding d1 using less.prems(2) il F nF by (rule count_step [where F = full_cells])
      then have "(21 - i) + length (filter full_cells (drop i ?rs1))
            < (21 - i) + length (filter full_cells (drop i ?rs))" by linarith
      from less.hyps [OF this len2 less.prems(2,3) nf2, of "c + 1"]
      obtain g' where g': "scan_rows ?g2 i (c + 1) = Some (g', c + 1 + length (filter full_cells (drop i ?rs1)))"
        "length (board g') = B_SIZE"
        "rows (board g') = replicate (length (filter full_cells (drop i ?rs1))) (?rs1 ! 0)
                @ take i ?rs1 @ filter (\<lambda>r. \<not> full_cells r) (drop i ?rs1)"
        "\<forall>j<B_SIZE. \<not> playing j \<longrightarrow> board g' ! j = board ?g2 ! j"
        "lines_cleared ?g2 < 10 \<longrightarrow> g' = ?g2\<lparr>board := board g'\<rparr>"
        by blast
      have "scan_rows g i c = Some (g', c + length (filter full_cells (drop i ?rs)))"
        using g'(1) cnt i21 True by (simp add: scan_rows_full)
      moreover have "rows (board g') =
                replicate (length (filter full_cells (drop i ?rs))) (?rs ! 0)
                @ take i ?rs @ filter (\<lambda>r. \<not> full_cells r) (drop i ?rs)"
        using shape_step [where F = full_cells, OF less.prems(2) il F nF, of "length (filter full_cells (drop i ?rs1))"]
        unfolding g'(3) t1 d1 cnt [symmetric] by (simp add: rs1)
      moreover have "\<forall>j<B_SIZE. \<not> playing j \<longrightarrow> board g' ! j = board g ! j"
        using g'(4) less.prems(1,2) i21 by (simp add: board_clear_at step_frame)
      moreover have "lines_cleared g < 10 \<longrightarrow> g' = g\<lparr>board := board g'\<rparr>"
      proof
        assume l: "lines_cleared g < 10"
        then have e: "?g2 = g\<lparr>board := clear_and_shift (board g) i\<rparr>" by (rule clear_at_id)
        with l g'(5) have "g' = ?g2\<lparr>board := board g'\<rparr>" by simp
        then show "g' = g\<lparr>board := board g'\<rparr>" unfolding e by simp
      qed
      ultimately show ?thesis using g'(2) by blast
    next
      case False
      then have nF: "\<not> full_cells (?rs ! i)" using i21 by (simp add: row_full_rows)
      have nf2: "\<forall>r<i + 1. \<not> row_full (board g) r"
        using less.prems(4) False by (auto simp: less_Suc_eq)
      have cnt: "length (filter full_cells (drop (i + 1) ?rs)) = length (filter full_cells (drop i ?rs))"
        using shape_advance(2) [where F = full_cells, OF il nF] by simp
      then have "(21 - (i + 1)) + length (filter full_cells (drop (i + 1) ?rs))
            < (21 - i) + length (filter full_cells (drop i ?rs))" using i21 by linarith
      from less.hyps [OF this less.prems(1) _ _ nf2, of c] i21
      obtain g' where g': "scan_rows g (i + 1) c = Some (g', c + length (filter full_cells (drop (i + 1) ?rs)))"
        "length (board g') = B_SIZE"
        "rows (board g') = replicate (length (filter full_cells (drop (i + 1) ?rs))) (?rs ! 0)
                @ take (i + 1) ?rs @ filter (\<lambda>r. \<not> full_cells r) (drop (i + 1) ?rs)"
        "\<forall>j<B_SIZE. \<not> playing j \<longrightarrow> board g' ! j = board g ! j"
        "lines_cleared g < 10 \<longrightarrow> g' = g\<lparr>board := board g'\<rparr>"
        by auto
      have "scan_rows g i c = Some (g', c + length (filter full_cells (drop i ?rs)))"
        using g'(1) cnt i21 False by (simp add: scan_rows_not_full)
      moreover have "rows (board g') =
                replicate (length (filter full_cells (drop i ?rs))) (?rs ! 0)
                @ take i ?rs @ filter (\<lambda>r. \<not> full_cells r) (drop i ?rs)"
        using shape_advance(1) [where F = full_cells, OF il nF] unfolding g'(3) cnt by simp
      ultimately show ?thesis using g'(2,4,5) by blast
    qed
  qed
qed

lemma full_rows_count: "full_rows b = length (filter full_cells (drop 1 (rows b)))"
proof -
  have "drop 1 (rows b) = map (row_cells b) [1..<21]"
    by (simp add: rows_def drop_map)
  moreover have "row_full b = (\<lambda>r. full_cells (row_cells b r))"
    by (rule ext) (rule row_full_cells)
  ultimately show ?thesis
    by (simp add: full_rows_def filter_map o_def)
qed

lemma compacted_rows:
  "compacted (rows b) =
     replicate (length (filter full_cells (drop 1 (rows b)))) (rows b ! 0) @ take 1 (rows b)
       @ filter (\<lambda>r. \<not> full_cells r) (drop 1 (rows b))"
proof -
  let ?rs = "rows b"
  obtain r0 rest where rs: "?rs = r0 # rest" using length_rows [of b] by (cases ?rs) auto
  have "length (filter full_cells rest) + length (filter (\<lambda>r. \<not> full_cells r) rest) = length rest"
    by (rule sum_length_filter_compl)
  then have "length ?rs - length (filter (\<lambda>r. \<not> full_cells r) rest) = Suc (length (filter full_cells rest))"
    unfolding rs by simp
  then show ?thesis
    unfolding compacted_def Let_def rs by (simp add: replicate_append_same)
qed

lemma compacted_not_full:
  assumes "\<not> full_cells (rows b ! 0)" "r < length (compacted (rows b))"
  shows "\<not> full_cells (compacted (rows b) ! r)"
proof -
  have "compacted (rows b) ! r \<in> set (compacted (rows b))" using assms(2) by (rule nth_mem)
  also have "\<dots> \<subseteq> {rows b ! 0} \<union> set (filter (\<lambda>r. \<not> full_cells r) (drop 1 (rows b)))"
    unfolding compacted_rows using length_rows [of b] by (auto simp: take_Suc_conv_app_nth)
  finally show ?thesis using assms(1) by auto
qed

text \<open>
  Claim C4, as the code has it. The scan re-examines row \<open>i\<close> after a clear and shift at
  \<open>i\<close> (second part of the statement, for any state \<open>h\<close>). When row 0 is not full on
  entry, the cycle returns; the count it returns is the number of full rows among rows
  \<open>1 .. B_ROWS - 3\<close> of the board on entry; the board it leaves is the board on entry
  with every full row removed, the other rows in their order moved down by one for each
  full row that was below them, and a copy of row 0 in each place that opened at the top;
  cells outside the playing rows are untouched; and no row of the scan is full
  afterwards. With \<^verbatim>\<open>lines_cleared\<close> below 10, as it is at every lock, nothing but the
  board changes.
\<close>

theorem clear_cycle_compacts:
  assumes "length (board g) = B_SIZE" "\<not> row_full (board g) 0"
  shows "(\<exists>g'. clear_cycle g = Some (g', full_rows (board g))
           \<and> board g' = with_rows (board g) (compacted (rows (board g)))
           \<and> list_all (\<lambda>i. \<not> row_full (board g') i) [1..<B_ROWS - 2]
           \<and> (lines_cleared g < 10 \<longrightarrow> g' = g\<lparr>board := board g'\<rparr>))
       \<and> (i < B_ROWS - 2 \<and> row_full (board h) i \<longrightarrow>
            scan_rows h i c = scan_rows (clear_at h i) i (c + 1)
            \<and> board (clear_at h i) = clear_and_shift (board h) i)"
proof (rule conjI)
  have nf: "\<forall>r<1. \<not> row_full (board g) r" using assms(2) by simp
  from scan_rows_result [OF assms(1) _ _ nf, of 0]
  obtain g' where g': "scan_rows g 1 0 = Some (g', full_rows (board g))"
    "length (board g') = B_SIZE"
    "rows (board g') = compacted (rows (board g))"
    "\<forall>j<B_SIZE. \<not> playing j \<longrightarrow> board g' ! j = board g ! j"
    "lines_cleared g < 10 \<longrightarrow> g' = g\<lparr>board := board g'\<rparr>"
    unfolding full_rows_count compacted_rows by auto
  have "board g' = with_rows (board g) (rows (board g'))"
    using g'(2,4) by (intro board_rebuild) simp_all
  then have b: "board g' = with_rows (board g) (compacted (rows (board g)))"
    by (simp add: g'(3))
  have "\<not> row_full (board g') r" if "r < 21" for r
  proof -
    have "r < length (compacted (rows (board g)))"
      using that length_rows [of "board g'"] by (simp add: g'(3))
    with assms(2) have "\<not> full_cells (compacted (rows (board g)) ! r)"
      by (intro compacted_not_full) (simp_all add: row_full_rows)
    with that show ?thesis by (simp add: row_full_rows g'(3))
  qed
  then have "list_all (\<lambda>i. \<not> row_full (board g') i) [1..<B_ROWS - 2]"
    by (simp add: list_all_iff)
  with g'(1,5) b
  show "\<exists>g'. clear_cycle g = Some (g', full_rows (board g))
           \<and> board g' = with_rows (board g) (compacted (rows (board g)))
           \<and> list_all (\<lambda>i. \<not> row_full (board g') i) [1..<B_ROWS - 2]
           \<and> (lines_cleared g < 10 \<longrightarrow> g' = g\<lparr>board := board g'\<rparr>)"
    unfolding clear_cycle_def by blast
next
  show "i < B_ROWS - 2 \<and> row_full (board h) i \<longrightarrow>
            scan_rows h i c = scan_rows (clear_at h i) i (c + 1)
            \<and> board (clear_at h i) = clear_and_shift (board h) i"
    using scan_rows_full [of i h c] by (simp add: board_clear_at)
qed

lemma length_two_lines: "length two_lines = B_SIZE"
  by (simp add: two_lines_def)

lemma nth_two_lines:
  "j < B_SIZE \<Longrightarrow> two_lines ! j =
     (if \<not> playing j then init_board ! j
              else if 19 \<le> j div B_COLS then 3
              else if j div B_COLS = 18 \<and> j mod B_COLS \<le> 3 then 5
              else 0)"
  by (simp add: two_lines_def)

lemma two_lines_full: "row_full two_lines r \<longleftrightarrow> 19 \<le> r" if "r < 21" for r
proof (cases "19 \<le> r")
  case True
  have "two_lines ! (r * 12 + x) \<noteq> 0" if "1 \<le> x" "x < 11" for x
  proof -
    have "r * 12 + x < B_SIZE" using \<open>r < 21\<close> that by simp
    moreover have "(r * 12 + x) div 12 = r" "(r * 12 + x) mod 12 = x" using that by simp_all
    ultimately show ?thesis using True that \<open>r < 21\<close> by (simp add: nth_two_lines playing_def)
  qed
  with True show ?thesis by (simp add: row_full_iff)
next
  case False
  have "r * 12 + 10 < B_SIZE" using that by simp
  moreover have "(r * 12 + 10) div 12 = r" "(r * 12 + 10) mod 12 = 10" by simp_all
  ultimately have "two_lines ! (r * 12 + 10) = 0"
    using False that by (simp add: nth_two_lines playing_def)
  then have "\<not> row_full two_lines r" by (intro not_full_cell [of 10]) simp_all
  with False show ?thesis by simp
qed

lemma full_rows_two_lines: "full_rows two_lines = 2"
proof -
  have "filter (row_full two_lines) [1..<21] = filter (\<lambda>r. 19 \<le> r) [1..<21]"
    by (rule filter_cong) (simp_all add: two_lines_full)
  also have "\<dots> = [19, 20]" by (simp add: upt_rec)
  finally show ?thesis by (simp add: full_rows_def)
qed

theorem clear_cycle_compacts_witness:
  "length (board (start\<lparr>board := two_lines\<rparr>)) = B_SIZE \<and> \<not> row_full two_lines 0
   \<and> full_rows two_lines = 2
   \<and> clear_cycle (start\<lparr>board := two_lines\<rparr>) =
        Some (start\<lparr>board := with_rows two_lines (compacted (rows two_lines))\<rparr>, 2)
   \<and> list_all (\<lambda>i. \<not> row_full (with_rows two_lines (compacted (rows two_lines))) i) [1..<B_ROWS - 2]"
proof -
  let ?g = "start\<lparr>board := two_lines\<rparr>"
  have h1: "length (board ?g) = B_SIZE" by (simp add: length_two_lines)
  have h2: "\<not> row_full (board ?g) 0" by (simp add: two_lines_full)
  have l: "lines_cleared ?g < 10" by (simp add: start_eq)
  from clear_cycle_compacts [OF h1 h2] l
  obtain g' where g': "clear_cycle ?g = Some (g', full_rows (board ?g))"
    "board g' = with_rows (board ?g) (compacted (rows (board ?g)))"
    "list_all (\<lambda>i. \<not> row_full (board g') i) [1..<B_ROWS - 2]"
    "g' = ?g\<lparr>board := board g'\<rparr>"
    by blast
  from g'(4) g'(2) have "g' = start\<lparr>board := with_rows two_lines (compacted (rows two_lines))\<rparr>"
    by simp
  with g' h1 h2 show ?thesis by (simp add: full_rows_two_lines)
qed

lemma nth_near_top:
  "j < B_SIZE \<Longrightarrow> near_top ! j =
     (if \<not> playing j then init_board ! j
              else if j div B_COLS = 0 then (if j mod B_COLS = 5 then 0 else 3)
              else if j div B_COLS = 1 then (if j mod B_COLS \<in> {4, 5, 6} then 0 else 3)
              else if j div B_COLS = 2 then (if j mod B_COLS = 5 then 0 else 3)
              else (if j mod B_COLS = 10 then 0 else 3))"
  by (simp add: near_top_def)

lemma length_near_top: "length near_top = B_SIZE"
  by (simp add: near_top_def)

lemma length_top_board: "length top_board = B_SIZE"
  by (simp add: top_board_def length_near_top)

lemma nth_top_board:
  "j < B_SIZE \<Longrightarrow> top_board ! j = (if j \<in> {17, 5, 16, 29} then 1 else near_top ! j)"
  by (auto simp: top_board_def nth_upd length_near_top)

lemma near_top_fits: "fits_in near_top 11 17 = Inr True"
  by (simp add: fits_in_def cell_def field_def shapes_def nth_near_top playing_def)

lemma near_top_rests: "fits_in near_top 11 29 = Inr False"
  by (simp add: fits_in_def cell_def field_def shapes_def nth_near_top playing_def)

lemma near_top_lock: "place near_top 11 17 1 = Inr top_board"
  by (simp add: place_def store_def field_def shapes_def top_board_def)

lemma top_board_rows: "row_full top_board 0" "\<not> row_full top_board 1" "row_full top_board 2"
  by (simp_all add: row_full_def cols nth_top_board nth_near_top playing_def)

text \<open>
  Claim C4 as stated fails when row 0 is full. On \<open>near_top\<close> the T piece fits at the
  spawn anchor 17 and cannot move down, so it locks there: row 0 and row 2 are now full
  and row 1 is not. The cycle clears row 2 and shifts: row 1 receives the full row 0. The
  scan has passed row 1 already, and the cycle returns 1 with row 1 full.
\<close>

theorem clear_cycle_counterexample:
  "fits_in near_top 11 17 = Inr True \<and> fits_in near_top 11 29 = Inr False
   \<and> place near_top 11 17 1 = Inr top_board
   \<and> clear_cycle (start\<lparr>board := top_board\<rparr>) = Some (start\<lparr>board := clear_and_shift top_board 2\<rparr>, 1)
   \<and> row_full (clear_and_shift top_board 2) 1"
proof -
  let ?g = "start\<lparr>board := top_board\<rparr>"
  let ?b2 = "clear_and_shift top_board 2"
  have l: "lines_cleared ?g < 10" by (simp add: start_eq)
  have g2: "clear_at ?g 2 = start\<lparr>board := ?b2\<rparr>"
    using clear_at_id [OF l, of 2] by simp
  have r1: "row_cells ?b2 1 = row_cells top_board 0" and r2: "row_cells ?b2 2 = row_cells top_board 1"
    by (simp_all add: row_cells_step length_top_board)
  have below: "\<not> row_full ?b2 r" if "3 \<le> r" "r < 21" for r
  proof -
    have "r * 12 + 10 < B_SIZE" using that by simp
    moreover have "(r * 12 + 10) div 12 = r" "(r * 12 + 10) mod 12 = 10" by simp_all
    ultimately have "?b2 ! (r * 12 + 10) = 0"
      using that by (simp add: nth_clear_and_shift length_top_board nth_top_board nth_near_top playing_def)
    then show ?thesis by (intro not_full_cell [of 10]) simp_all
  qed
  have "\<not> row_full ?b2 r" if "2 \<le> r" "r < 21" for r
  proof (cases "r = 2")
    case True
    then show ?thesis using top_board_rows(2) r2 by (simp add: row_full_cells)
  next
    case False
    with that show ?thesis by (intro below) simp_all
  qed
  then have s3: "scan_rows (start\<lparr>board := ?b2\<rparr>) 2 1 = Some (start\<lparr>board := ?b2\<rparr>, 1)"
    by (intro scan_skip) simp_all
  have "clear_cycle ?g = scan_rows ?g 1 0" by (simp add: clear_cycle_def)
  also have "\<dots> = scan_rows ?g (1 + 1) 0"
    using top_board_rows(2) by (intro scan_rows_not_full) simp_all
  also have "\<dots> = scan_rows ?g 2 0" by (simp only: one_add_one)
  also have "\<dots> = scan_rows (clear_at ?g 2) 2 (0 + 1)"
    using top_board_rows(3) by (intro scan_rows_full) simp_all
  also have "\<dots> = scan_rows (start\<lparr>board := ?b2\<rparr>) 2 1" by (simp add: g2)
  finally have "clear_cycle ?g = Some (start\<lparr>board := ?b2\<rparr>, 1)" using s3 by simp
  moreover have "row_full ?b2 1" using top_board_rows(1) r1 by (simp add: row_full_cells)
  ultimately show ?thesis by (simp add: near_top_fits near_top_rests near_top_lock)
qed

lemma scan_rows_stuck:
  assumes "scan_rows g i c = Some y"
  shows "\<not> (i = 1 \<and> length (board g) = B_SIZE \<and> row_full (board g) 0 \<and> row_full (board g) 1)"
proof (rule scan_rows.raw_induct
    [where P = "\<lambda>g i c y. \<not> (i = 1 \<and> length (board g) = B_SIZE \<and> row_full (board g) 0 \<and> row_full (board g) 1)",
      OF _ assms])
  fix scan :: "game \<Rightarrow> nat \<Rightarrow> nat \<Rightarrow> (game \<times> nat) option" and g i c y
  assume IH: "\<And>g i c y. scan g i c = Some y \<Longrightarrow>
      \<not> (i = 1 \<and> length (board g) = B_SIZE \<and> row_full (board g) 0 \<and> row_full (board g) 1)"
    and body: "(if i < B_ROWS - 2 then
        if row_full (board g) i then scan (clear_at g i) i (c + 1)
        else scan g (i + 1) c
      else Some (g, c)) = Some y"
  show "\<not> (i = 1 \<and> length (board g) = B_SIZE \<and> row_full (board g) 0 \<and> row_full (board g) 1)"
  proof
    assume a: "i = 1 \<and> length (board g) = B_SIZE \<and> row_full (board g) 0 \<and> row_full (board g) 1"
    let ?g2 = "clear_at g 1"
    from a body have s: "scan ?g2 1 (c + 1) = Some y" by simp
    have "row_cells (board ?g2) 0 = row_cells (board g) 0"
      "row_cells (board ?g2) 1 = row_cells (board g) 0"
      using a by (simp_all add: board_clear_at row_cells_step)
    with a have "row_full (board ?g2) 0" "row_full (board ?g2) 1"
      by (simp_all add: row_full_cells)
    moreover have "length (board ?g2) = B_SIZE"
      using a by (simp add: board_clear_at length_clear_and_shift)
    ultimately show False using IH [OF s] by simp
  qed
qed

text \<open>
  With row 0 and row 1 both full the cycle does not return: each clear and shift at row 1
  puts the full row 0 into row 1 again.
\<close>

lemma clear_cycle_stuck:
  assumes "length (board g) = B_SIZE" "row_full (board g) 0" "row_full (board g) 1"
  shows "clear_cycle g = None"
proof (cases "clear_cycle g")
  case None
  then show ?thesis .
next
  case (Some y)
  then have "scan_rows g 1 0 = Some y" by (simp add: clear_cycle_def)
  from scan_rows_stuck [OF this] assms show ?thesis by simp
qed

subsection \<open>A game session\<close>

lemma fits_in_defined:
  assumes "border_ok b" "k < 19" "12 \<le> a" "a < int B_SIZE"
  shows "\<exists>ok. fits_in b k a = Inr ok"
proof (cases "playing (nat a)")
  case False
  have i: "in_board a" using assms(3,4) by (simp add: in_board_def)
  then have "nat a < B_SIZE" by (rule in_board_nat)
  from border_okD [OF assms(1) this False] have "b ! nat a \<noteq> 0" by simp
  with i have "fits_in b k a = Inr False" by (rule fits_in_anchor_occupied)
  then show ?thesis by blast
next
  case True
  from assms(3) have "12 \<le> nat a" by linarith
  from playing_bounds [OF True this] have "13 \<le> a" "a \<le> 250" by linarith+
  with assms(2) have "list_all in_board (cells k a)" by (intro inner_cells_in_board)
  then show ?thesis by (simp add: cells_def fits_in_in_board)
qed

lemma fits_pos:
  assumes "border_ok b" "fits_in b k a = Inr True" "12 \<le> a"
  shows "13 \<le> a \<and> a \<le> 250"
proof -
  from assms(2) have "in_board a" "b ! nat a = 0"
    by (simp_all add: fits_in_True_iff cells_def)
  with assms(1) have "playing (nat a)" by (intro free_cell_playing)
  moreover from assms(3) have "12 \<le> nat a" by linarith
  ultimately show ?thesis using playing_bounds [of "nat a"] by linarith
qed

lemma session_pos: "session_ok g \<Longrightarrow> 13 \<le> pos g \<and> pos g \<le> 250"
  unfolding session_ok_def using fits_pos by blast

lemma session_move:
  assumes "session_ok g" "k < 19" "12 \<le> a" "a < int B_SIZE"
  shows "\<exists>ok. fits_in (board g) k a = Inr ok \<and> (ok \<longrightarrow> session_ok (g\<lparr>shape := k, pos := a\<rparr>))"
proof -
  from assms have "\<exists>ok. fits_in (board g) k a = Inr ok"
    by (intro fits_in_defined) (simp_all add: session_ok_def)
  then obtain ok where "fits_in (board g) k a = Inr ok" ..
  with assms show ?thesis by (auto simp: session_ok_def)
qed

lemma session_key_left: "session_ok g \<Longrightarrow> \<exists>g'. key_left g = Inr g' \<and> session_ok g'"
proof -
  assume i: "session_ok g"
  from session_pos [OF i] have "12 \<le> pos g - 1" "pos g - 1 < int B_SIZE" by linarith+
  from session_move [OF i _ this, of "shape g"] i
  obtain ok where "fits_in (board g) (shape g) (pos g - 1) = Inr ok"
    "ok \<longrightarrow> session_ok (g\<lparr>pos := pos g - 1\<rparr>)" by (auto simp: session_ok_def)
  with i show ?thesis by (cases ok) (simp_all add: key_left_def Let_def)
qed

lemma session_key_right: "session_ok g \<Longrightarrow> \<exists>g'. key_right g = Inr g' \<and> session_ok g'"
proof -
  assume i: "session_ok g"
  from session_pos [OF i] have "12 \<le> pos g + 1" "pos g + 1 < int B_SIZE" by linarith+
  from session_move [OF i _ this, of "shape g"] i
  obtain ok where "fits_in (board g) (shape g) (pos g + 1) = Inr ok"
    "ok \<longrightarrow> session_ok (g\<lparr>pos := pos g + 1\<rparr>)" by (auto simp: session_ok_def)
  with i show ?thesis by (cases ok) (simp_all add: key_right_def Let_def)
qed

lemma session_key_rotate: "session_ok g \<Longrightarrow> \<exists>g'. key_rotate g = Inr g' \<and> session_ok g'"
proof -
  assume i: "session_ok g"
  then have k: "find_prev (shape g) < 19" by (simp add: session_ok_def succ_find_prev)
  from session_pos [OF i] have "12 \<le> pos g" "pos g < int B_SIZE" by linarith+
  from session_move [OF i k this]
  obtain ok where "fits_in (board g) (find_prev (shape g)) (pos g) = Inr ok"
    "ok \<longrightarrow> session_ok (g\<lparr>shape := find_prev (shape g)\<rparr>)" by auto
  with i show ?thesis by (cases ok) (simp_all add: key_rotate_def Let_def)
qed

lemma session_key_rrotate: "session_ok g \<Longrightarrow> \<exists>g'. key_rrotate g = Inr g' \<and> session_ok g'"
proof -
  assume i: "session_ok g"
  then have k: "nat (field (shape g) 0) < 19"
    using succ_lt [of "shape g"] by (simp add: session_ok_def nat_less_iff)
  from session_pos [OF i] have "12 \<le> pos g" "pos g < int B_SIZE" by linarith+
  from session_move [OF i k this]
  obtain ok where "fits_in (board g) (nat (field (shape g) 0)) (pos g) = Inr ok"
    "ok \<longrightarrow> session_ok (g\<lparr>shape := nat (field (shape g) 0)\<rparr>)" by auto
  with i show ?thesis by (cases ok) (simp_all add: key_rrotate_def Let_def)
qed

lemma session_points: "session_ok (g\<lparr>points := p\<rparr>) = session_ok g"
  by (simp add: session_ok_def)

lemma session_key_drop:
  "session_ok g \<Longrightarrow> key_drop g = Inl SignedOverflow \<or> (\<exists>g'. key_drop g = Inr g' \<and> session_ok g')"
proof (induction g rule: key_drop.induct)
  case (1 g)
  from session_pos [OF 1(2)] have "12 \<le> pos g + int B_COLS" "pos g + int B_COLS < int B_SIZE"
    by simp_all
  from session_move [OF 1(2) _ this, of "shape g"] 1(2)
  obtain ok where ok: "fits_in (board g) (shape g) (pos g + int B_COLS) = Inr ok"
    "ok \<longrightarrow> session_ok (g\<lparr>pos := pos g + int B_COLS\<rparr>)" by (auto simp: session_ok_def)
  show ?case
  proof (cases ok)
    case False
    with ok 1(2) show ?thesis by (simp add: key_drop.simps [of g])
  next
    case True
    show ?thesis
    proof (cases "long_add (points g) 1")
      case (Inl e)
      then have "e = SignedOverflow" by (simp add: long_add_def split: if_splits)
      with Inl ok True show ?thesis by (simp add: key_drop.simps [of g])
    next
      case (Inr p)
      from ok True have "session_ok (g\<lparr>pos := pos g + int B_COLS, points := p\<rparr>)"
        by (simp add: session_points)
      from 1(1) [OF ok(1) True Inr this] ok True Inr show ?thesis
        by (simp add: key_drop.simps [of g])
    qed
  qed
qed

lemma level_loop_fields: "\<exists>l v. level_loop g = g\<lparr>lines_cleared := l, level := v\<rparr>"
proof (induction g rule: level_loop.induct)
  case (1 g)
  show ?case
  proof (cases "lines_cleared g \<ge> 10")
    case True
    with 1 obtain l v where
      "level_loop (g\<lparr>lines_cleared := lines_cleared g - 10, level := level g + 1\<rparr>)
         = g\<lparr>lines_cleared := l, level := v\<rparr>" by auto
    with True have "level_loop g = g\<lparr>lines_cleared := l, level := v\<rparr>"
      by (simp add: level_loop.simps [of g])
    then show ?thesis by blast
  next
    case False
    then have "level_loop g = g\<lparr>lines_cleared := lines_cleared g, level := level g\<rparr>"
      by (simp add: level_loop.simps [of g])
    then show ?thesis by blast
  qed
qed

lemma update_fields: "\<exists>l v. update g = g\<lparr>lines_cleared := l, level := v\<rparr>"
  unfolding update_def by (rule level_loop_fields)

lemma session_update: "session_ok (update g) = session_ok g"
proof -
  obtain l v where "update g = g\<lparr>lines_cleared := l, level := v\<rparr>"
    using update_fields by blast
  then show ?thesis by (simp add: session_ok_def)
qed

lemma place_update:
  "place (board (update g)) (shape (update g)) (pos (update g)) c = place (board g) (shape g) (pos g) c"
proof -
  obtain l v where "update g = g\<lparr>lines_cleared := l, level := v\<rparr>"
    using update_fields by blast
  then show ?thesis by simp
qed

lemma session_show_piece: "session_ok g \<Longrightarrow> \<exists>g'. show_piece g = Inr g' \<and> session_ok g'"
proof -
  assume i: "session_ok g"
  then have f: "fits_in (board g) (shape g) (pos g) = Inr True" and b: "border_ok (board g)"
    by (simp_all add: session_ok_def)
  from border_ok_place [OF b f] obtain b1 where
    b1: "place (board g) (shape g) (pos g) (color g) = Inr b1" by blast
  let ?g1 = "update (g\<lparr>board := b1\<rparr>)"
  have e: "place b1 (shape g) (pos g) 0 = Inr (board g)"
    using b f b1 by (intro place_erase [where c = "color g"]) (simp_all add: border_ok_length)
  have "place (board ?g1) (shape ?g1) (pos ?g1) 0 = Inr (board g)"
    using e by (simp add: place_update)
  then have s: "show_piece g = Inr (?g1\<lparr>board := board g\<rparr>)"
    by (simp add: show_piece_def b1 Let_def)
  obtain l v where "?g1 = g\<lparr>board := b1, lines_cleared := l, level := v\<rparr>"
    using update_fields [of "g\<lparr>board := b1\<rparr>"] by auto
  then have "?g1\<lparr>board := board g\<rparr> = g\<lparr>lines_cleared := l, level := v\<rparr>" by simp
  with i have "session_ok (?g1\<lparr>board := board g\<rparr>)" by (simp add: session_ok_def)
  with s show ?thesis by blast
qed

lemma spawn_fits: "k < 7 \<Longrightarrow> fits_in init_board k 17 = Inr True"
proof -
  assume "k < 7"
  then have "k = 0 \<or> k = 1 \<or> k = 2 \<or> k = 3 \<or> k = 4 \<or> k = 5 \<or> k = 6" by linarith
  then show ?thesis
    by (elim disjE) (simp_all add: fits_in_def cell_def field_def shapes_def nth_init_board)
qed

lemma session_init:
  assumes "case peek_shape g of None \<Rightarrow> True | Some n \<Rightarrow> n < 7"
  shows "session_ok (init g r r')"
proof (cases "peek_shape g")
  case None
  then show ?thesis
    by (simp add: session_ok_def init_def next_shape_def draw_peek_def border_ok_init spawn_fits)
next
  case (Some n)
  with assms have "n < 7" by simp
  with Some show ?thesis
    by (simp add: session_ok_def init_def next_shape_def draw_peek_def border_ok_init spawn_fits)
qed

lemma clear_at_keeps:
  "peek_shape (clear_at g i) = peek_shape g"
proof -
  obtain l v where 1: "update (g\<lparr>board := clear_row (board g) i\<rparr>)
      = g\<lparr>board := clear_row (board g) i, lines_cleared := l, level := v\<rparr>"
    using update_fields [of "g\<lparr>board := clear_row (board g) i\<rparr>"] by auto
  let ?g1 = "update (g\<lparr>board := clear_row (board g) i\<rparr>)"
  obtain l' v' where 2: "update (?g1\<lparr>board := shift_down i (board ?g1)\<rparr>)
      = ?g1\<lparr>board := shift_down i (board ?g1), lines_cleared := l', level := v'\<rparr>"
    using update_fields [of "?g1\<lparr>board := shift_down i (board ?g1)\<rparr>"] by auto
  show ?thesis unfolding clear_at_def Let_def 2 by (simp add: 1)
qed

lemma scan_rows_keeps:
  assumes "scan_rows g i c = Some y"
  shows "(border_ok (board g) \<longrightarrow> border_ok (board (fst y))) \<and> peek_shape (fst y) = peek_shape g"
proof (rule scan_rows.raw_induct
    [where P = "\<lambda>g i c y. (border_ok (board g) \<longrightarrow> border_ok (board (fst y))) \<and> peek_shape (fst y) = peek_shape g",
      OF _ assms])
  fix scan :: "game \<Rightarrow> nat \<Rightarrow> nat \<Rightarrow> (game \<times> nat) option" and g i c y
  assume IH: "\<And>g i c y. scan g i c = Some y \<Longrightarrow>
      (border_ok (board g) \<longrightarrow> border_ok (board (fst y))) \<and> peek_shape (fst y) = peek_shape g"
    and body: "(if i < B_ROWS - 2 then
        if row_full (board g) i then scan (clear_at g i) i (c + 1)
        else scan g (i + 1) c
      else Some (g, c)) = Some y"
  show "(border_ok (board g) \<longrightarrow> border_ok (board (fst y))) \<and> peek_shape (fst y) = peek_shape g"
  proof (cases "i < B_ROWS - 2")
    case False
    with body show ?thesis by auto
  next
    case i: True
    show ?thesis
    proof (cases "row_full (board g) i")
      case True
      with body i have "scan (clear_at g i) i (c + 1) = Some y" by simp
      from IH [OF this] i show ?thesis
        by (simp add: board_clear_at clear_at_keeps border_ok_clear_and_shift)
    next
      case False
      with body i have "scan g (i + 1) c = Some y" by simp
      from IH [OF this] show ?thesis .
    qed
  qed
qed

lemma lock_tail_keeps:
  assumes "lock_tail g c = Inr (Continue g')"
  shows "board g' = board g \<and> peek_shape g' = peek_shape g"
proof -
  from assms obtain g1 where s: "score_lock g c = Inr (Continue g1)" and g': "g' = update g1"
    by (auto simp: lock_tail_def split: sum.splits outcome.splits)
  from s have "board g1 = board g \<and> peek_shape g1 = peek_shape g"
    by (auto simp: score_lock_def Let_def split: if_splits sum.splits)
  moreover obtain l v where "update g1 = g1\<lparr>lines_cleared := l, level := v\<rparr>"
    using update_fields by blast
  ultimately show ?thesis by (simp add: g')
qed

lemma session_lock:
  assumes "session_ok g"
  shows "(lock g r r' = Some (Inr (Go g')) \<longrightarrow> session_ok g')
       \<and> (lock g r r' = Some (Inr (Over g')) \<longrightarrow> border_ok (board g')
            \<and> (case peek_shape g' of None \<Rightarrow> False | Some n \<Rightarrow> n < 7))
       \<and> lock g r r' \<noteq> Some (Inr Win)"
proof -
  from assms have f: "fits_in (board g) (shape g) (pos g) = Inr True" and b: "border_ok (board g)"
    and pk: "case peek_shape g of None \<Rightarrow> False | Some n \<Rightarrow> n < 7"
    by (simp_all add: session_ok_def)
  from border_ok_place [OF b f] obtain b1 where
    b1: "place (board g) (shape g) (pos g) (color g) = Inr b1" "border_ok b1" by blast
  show ?thesis
  proof (cases "clear_cycle (g\<lparr>board := b1\<rparr>)")
    case None
    then show ?thesis by (simp add: lock_def b1)
  next
    case (Some y)
    obtain g2 clears where y: "y = (g2, clears)" by (cases y)
    from Some have "scan_rows (g\<lparr>board := b1\<rparr>) 1 0 = Some y" by (simp add: clear_cycle_def)
    from scan_rows_keeps [OF this] b1(2) y
    have g2: "border_ok (board g2)" "peek_shape g2 = peek_shape g" by simp_all
    show ?thesis
    proof (cases "lock_tail g2 clears")
      case (Inl e)
      with Some y show ?thesis by (simp add: lock_def b1)
    next
      case (Inr out)
      show ?thesis
      proof (cases out)
        case Won
        with Inr have "score_lock g2 clears = Inr Won"
          by (auto simp: lock_tail_def split: sum.splits outcome.splits)
        with score_lock_never_won show ?thesis by blast
      next
        case (Continue g3)
        from lock_tail_keeps [OF Inr [unfolded Continue]] g2
        have g3: "border_ok (board g3)" "peek_shape g3 = peek_shape g" by simp_all
        from pk g3(2) obtain n where n: "peek_shape g3 = Some n" "n < 7"
          by (cases "peek_shape g") auto
        let ?g4 = "(next_shape g3 r r')\<lparr>pos := 17\<rparr>"
        have g4: "board ?g4 = board g3" "shape ?g4 = n" "pos ?g4 = 17"
          "peek_shape ?g4 = Some (r mod 7)"
          using n by (simp_all add: next_shape_def draw_peek_def)
        from fits_in_defined [OF g3(1), of n 17] n(2)
        obtain ok where ok: "fits_in (board g3) n 17 = Inr ok" by auto
        have l: "lock g r r' = Some (Inr (if \<not> ok then Over ?g4 else Go ?g4))"
          using Some y Inr Continue ok g4 by (simp add: lock_def b1 Let_def)
        have "session_ok ?g4" if ok
          using that ok g3(1) n(2) g4 by (simp add: session_ok_def)
        with l g3(1) g4 show ?thesis by (cases ok) auto
      qed
    qed
  qed
qed

lemma session_tick:
  assumes "session_ok g"
  shows "(tick g r r' = Some (Inr (Go g')) \<longrightarrow> session_ok g')
       \<and> (tick g r r' = Some (Inr (Over g')) \<longrightarrow> border_ok (board g')
            \<and> (case peek_shape g' of None \<Rightarrow> False | Some n \<Rightarrow> n < 7))
       \<and> tick g r r' \<noteq> Some (Inr Win)"
proof -
  from session_pos [OF assms] have "12 \<le> pos g + int B_COLS" "pos g + int B_COLS < int B_SIZE"
    by simp_all
  from session_move [OF assms _ this, of "shape g"] assms
  obtain ok where ok: "fits_in (board g) (shape g) (pos g + int B_COLS) = Inr ok"
    "ok \<longrightarrow> session_ok (g\<lparr>pos := pos g + int B_COLS\<rparr>)" by (auto simp: session_ok_def)
  show ?thesis
  proof (cases ok)
    case True
    with ok show ?thesis by (auto simp: tick_def)
  next
    case False
    with ok have "tick g r r' = lock g r r'" by (simp add: tick_def)
    with session_lock [OF assms, of r r' g'] show ?thesis by simp
  qed
qed

text \<open>
  Every operation of the main loop takes a state between two operations to such a state
  again. So the border is in place throughout a session, every call of \<^verbatim>\<open>place\<close> writes
  cells where the piece fits, and the handlers read and write the board within the
  array. \<^verbatim>\<open>init\<close> gives such a state from any state whose preview is null or a base shape.
\<close>

lemma session_invariant:
  assumes "session_ok g"
  shows "\<exists>g'. key_left g = Inr g' \<and> session_ok g'"
    and "\<exists>g'. key_right g = Inr g' \<and> session_ok g'"
    and "\<exists>g'. key_rotate g = Inr g' \<and> session_ok g'"
    and "\<exists>g'. key_rrotate g = Inr g' \<and> session_ok g'"
    and "key_drop g = Inl SignedOverflow \<or> (\<exists>g'. key_drop g = Inr g' \<and> session_ok g')"
    and "\<exists>g'. show_piece g = Inr g' \<and> session_ok g'"
    and "tick g r r' = Some (Inr (Go g')) \<longrightarrow> session_ok g'"
    and "tick g r r' = Some (Inr (Over g')) \<longrightarrow> session_ok (init g' q q')"
    and "session_ok (init g q q')"
proof -
  show "\<exists>g'. key_left g = Inr g' \<and> session_ok g'" using assms by (rule session_key_left)
  show "\<exists>g'. key_right g = Inr g' \<and> session_ok g'" using assms by (rule session_key_right)
  show "\<exists>g'. key_rotate g = Inr g' \<and> session_ok g'" using assms by (rule session_key_rotate)
  show "\<exists>g'. key_rrotate g = Inr g' \<and> session_ok g'" using assms by (rule session_key_rrotate)
  show "key_drop g = Inl SignedOverflow \<or> (\<exists>g'. key_drop g = Inr g' \<and> session_ok g')"
    using assms by (rule session_key_drop)
  show "\<exists>g'. show_piece g = Inr g' \<and> session_ok g'" using assms by (rule session_show_piece)
  show "tick g r r' = Some (Inr (Go g')) \<longrightarrow> session_ok g'"
    using session_tick [OF assms] by blast
  show "tick g r r' = Some (Inr (Over g')) \<longrightarrow> session_ok (init g' q q')"
  proof
    assume "tick g r r' = Some (Inr (Over g'))"
    with session_tick [OF assms, of r r' g']
    have "case peek_shape g' of None \<Rightarrow> False | Some n \<Rightarrow> n < 7" by blast
    then show "session_ok (init g' q q')"
      by (intro session_init) (auto split: option.splits)
  qed
  show "session_ok (init g q q')"
    using assms by (intro session_init) (auto simp: session_ok_def split: option.splits)
qed

end
